theory Spec2Isabelle
  imports
    Main
    "HOL-Library.AList"
    "HOL-Library.Char_ord"
    "HOL-Library.Finite_Map"
    "HOL-Library.List_Lexorder"
    "HOL-Library.Product_Lexorder"
    "HOL-Library.Multiset"
    "HOL-Library.Sublist"
begin

section \<open>Data model of \<open>conda_smithy/configure_feedstock.py\<close>\<close>

text \<open>
  A variant mapping (``squished'' mapping, Config) is a Python dict from variable names to
  values. Dicts keep insertion order, so they are association lists whose keys are
  distinct; \<open>AList.update\<close> is \<open>d[k] = v\<close> (replace in place, or append) and
  \<open>AList.delete\<close> is \<open>del d[k]\<close>. The values that occur are: a list of scalars (the
  domain of a variable), a list of lists (\<open>zip_keys\<close>), and the dict of dicts
  \<open>pin_run_as_build\<close>. Scalars are strings (\<open>str\<close> of a string is the string);
  strings are compared as Python compares them, character by character.
\<close>

type_synonym pins = "(string \<times> (string \<times> string) list) list"

datatype val = Strs "string list" | Groups "string list list" | Pins pins

type_synonym dict = "(string \<times> val) list"

text \<open>
  The exceptions the modelled code raises. \<open>Unmodelled\<close> marks a run on a value of a
  shape this model does not follow further (for instance \<open>str\<close> of a list); no theorem
  below concludes anything but failure from it.
\<close>

datatype error = KeyError | IndexError | AttributeError | TypeError | Unmodelled

section \<open>Config naming: \<open>package_key\<close> and the names of \<open>dump_subspace_config_files\<close>\<close>

text \<open>\<open>str(config[k][0])\<close>.\<close>

definition first_value :: "dict \<Rightarrow> string \<Rightarrow> error + string" where
  "first_value config k =
     (case map_of config k of
        None \<Rightarrow> Inl KeyError
      | Some (Strs []) \<Rightarrow> Inl IndexError
      | Some (Strs (v # _)) \<Rightarrow> Inr v
      | Some (Groups []) \<Rightarrow> Inl IndexError
      | Some (Groups (_ # _)) \<Rightarrow> Inl Unmodelled
      | Some (Pins _) \<Rightarrow> Inl KeyError)"

text \<open>\<open>s.replace(a, b)\<close> for one-character \<open>a\<close> and \<open>b\<close>.\<close>

definition replace_char :: "char \<Rightarrow> char \<Rightarrow> string \<Rightarrow> string" where
  "replace_char a b s = map (\<lambda>c. if c = a then b else c) s"

text \<open>
  The comprehension of \<open>package_key\<close>, joined: the keys come sorted, \<open>target_platform\<close>
  is skipped, the first failing lookup raises.
\<close>

fun key_parts :: "dict \<Rightarrow> string list \<Rightarrow> error + string" where
  "key_parts config [] = Inr []"
| "key_parts config (k # ks) =
     (if k = ''target_platform'' then key_parts config ks
      else (case first_value config k of
              Inl e \<Rightarrow> Inl e
            | Inr v \<Rightarrow> (case key_parts config ks of
                          Inl e \<Rightarrow> Inl e
                        | Inr r \<Rightarrow> Inr (k @ v @ r))))"

text \<open>\<open>used_loop_vars\<close> is a set; it is given by a list of its elements.\<close>

definition package_key :: "dict \<Rightarrow> string list \<Rightarrow> string \<Rightarrow> error + string" where
  "package_key config used_loop_vars subdir =
     (case key_parts config (sorted_list_of_set (set used_loop_vars)) of
        Inl e \<Rightarrow> Inl e
      | Inr key \<Rightarrow> Inr (replace_char CHR '' '' CHR ''_'' (replace_char CHR ''*'' CHR ''_'' key)))"

text \<open>
  The three names computed in the loop of \<open>dump_subspace_config_files\<close>.
  \<open>hashlib.sha256(...).hexdigest()\<close> is a library function, taken as the parameter
  \<open>sha256_hexdigest\<close>.
\<close>

definition config_name :: "string \<Rightarrow> string \<Rightarrow> dict \<Rightarrow> string list \<Rightarrow> string \<Rightarrow> error + string" where
  "config_name platform arch config top_level_loop_vars subdir =
     (case package_key config top_level_loop_vars subdir of
        Inl e \<Rightarrow> Inl e
      | Inr key \<Rightarrow> Inr (platform @ ''_'' @ arch @ ''_'' @ key))"

definition short_config_name :: "(string \<Rightarrow> string) \<Rightarrow> string \<Rightarrow> string" where
  "short_config_name sha256_hexdigest name =
     (if length name \<ge> 49 then take 35 name @ ''_h'' @ take 10 (sha256_hexdigest name)
      else name)"

definition emitted_config_name :: "(string \<Rightarrow> string) \<Rightarrow> string \<Rightarrow> string" where
  "emitted_config_name sha256_hexdigest name =
     (if length (''conda-forge-build-done-'' @ name) \<ge> 250
      then short_config_name sha256_hexdigest name
      else name)"

text \<open>
  The naming rule as the specification words it: every character that is not a letter or a
  digit becomes an underscore.
\<close>

definition is_alnum :: "char \<Rightarrow> bool" where
  "is_alnum c =
     ((CHR ''a'' \<le> c \<and> c \<le> CHR ''z'') \<or> (CHR ''A'' \<le> c \<and> c \<le> CHR ''Z'')
      \<or> (CHR ''0'' \<le> c \<and> c \<le> CHR ''9''))"

definition spec_normalize :: "string \<Rightarrow> string" where
  "spec_normalize s = map (\<lambda>c. if is_alnum c then c else CHR ''_'') s"

section \<open>Sorting: \<open>merge_list_of_dicts\<close>, \<open>argsort\<close>, \<open>sort_config\<close>\<close>

text \<open>
  \<open>merge_list_of_dicts\<close>: a key is appended when it is first seen, its list is extended in
  place afterwards.
\<close>

definition extend_key :: "('k \<times> 'a list) list \<Rightarrow> 'k \<times> 'a list \<Rightarrow> ('k \<times> 'a list) list" where
  "extend_key squished_dict kv =
     (case kv of (key, val) \<Rightarrow>
        AList.update key
          ((case map_of squished_dict key of None \<Rightarrow> [] | Some xs \<Rightarrow> xs) @ val) squished_dict)"

definition merge_list_of_dicts :: "('k \<times> 'a list) list list \<Rightarrow> ('k \<times> 'a list) list" where
  "merge_list_of_dicts list_of_dicts =
     foldl (\<lambda>squished_dict idict. foldl extend_key squished_dict idict) [] list_of_dicts"

text \<open>\<open>sorted(range(len(seq)), key=seq.__getitem__)\<close>; Python's sort is stable.\<close>

definition argsort :: "'a::linorder list \<Rightarrow> nat list" where
  "argsort seq = sort_key (\<lambda>i. seq ! i) [0..<length seq]"

text \<open>A comprehension whose element may raise: the first failure is the result.\<close>

fun collect :: "('a \<Rightarrow> error + 'b) \<Rightarrow> 'a list \<Rightarrow> error + 'b list" where
  "collect f [] = Inr []"
| "collect f (x # xs) =
     (case f x of
        Inl e \<Rightarrow> Inl e
      | Inr y \<Rightarrow> (case collect f xs of Inl e \<Rightarrow> Inl e | Inr ys \<Rightarrow> Inr (y # ys)))"

text \<open>
  \<open>len(v)\<close>, and \<open>config[key][idx]\<close> where a scalar is expected: an element that is a
  list is not followed further; a dict has no integer key.
\<close>

fun value_len :: "val \<Rightarrow> nat" where
  "value_len (Strs xs) = length xs"
| "value_len (Groups gs) = length gs"
| "value_len (Pins p) = length p"

definition cell :: "dict \<Rightarrow> string \<Rightarrow> nat \<Rightarrow> error + string" where
  "cell config key idx =
     (case map_of config key of
        None \<Rightarrow> Inl KeyError
      | Some (Strs xs) \<Rightarrow> if idx < length xs then Inr (xs ! idx) else Inl IndexError
      | Some (Groups gs) \<Rightarrow> if idx < length gs then Inl Unmodelled else Inl IndexError
      | Some (Pins _) \<Rightarrow> Inl KeyError)"

text \<open>The first loop of \<open>sort_config\<close>: one order for each group, given to each of its keys.\<close>

fun sorting_orders ::
  "dict \<Rightarrow> string list list \<Rightarrow> (string \<times> nat list) list \<Rightarrow> error + (string \<times> nat list) list"
  where
  "sorting_orders config [] sorting_order = Inr sorting_order"
| "sorting_orders config ([] # groups) sorting_order =
     sorting_orders config groups sorting_order"
| "sorting_orders config ((g0 # g) # groups) sorting_order =
     (case map_of config g0 of
        None \<Rightarrow> Inl KeyError
      | Some v \<Rightarrow>
          (case collect (\<lambda>idx. collect (\<lambda>key. cell config key idx) (g0 # g))
                  [0..<value_len v] of
             Inl e \<Rightarrow> Inl e
           | Inr list_of_values \<Rightarrow>
               sorting_orders config groups
                 (foldl (\<lambda>so key. AList.update key (argsort list_of_values) so)
                    sorting_order (g0 # g))))"

text \<open>
  \<open>pin_run_as_build\<close> re-emitted: packages ascending, the pins of each package descending.
\<close>

definition sort_pins :: "pins \<Rightarrow> pins" where
  "sort_pins value =
     map (\<lambda>(pkg, pkg_pins). (pkg, rev (sort_key fst pkg_pins))) (sort_key fst value)"

text \<open>\<open>[val[i] for i in sorting_order[key]]\<close>.\<close>

definition reorder :: "nat list \<Rightarrow> 'a list \<Rightarrow> error + 'a list" where
  "reorder order val =
     (if \<forall>i \<in> set order. i < length val then Inr (map (\<lambda>i. val ! i) order)
      else Inl IndexError)"

text \<open>One turn of the second loop of \<open>sort_config\<close>.\<close>

definition sort_item :: "(string \<times> nat list) list \<Rightarrow> string \<times> val \<Rightarrow> error + string \<times> val" where
  "sort_item sorting_order kv =
     (case kv of (key, value) \<Rightarrow>
        (case (case value of
                 Strs val \<Rightarrow>
                   (case map_of sorting_order key of
                      Some order \<Rightarrow>
                        (case reorder order val of Inl e \<Rightarrow> Inl e | Inr val' \<Rightarrow> Inr (Strs val'))
                    | None \<Rightarrow> Inr (Strs (sort val)))
               | Groups val \<Rightarrow>
                   (case map_of sorting_order key of
                      Some order \<Rightarrow>
                        (case reorder order val of Inl e \<Rightarrow> Inl e | Inr val' \<Rightarrow> Inr (Groups val'))
                    | None \<Rightarrow> Inr (Groups (sort val)))
               | Pins p \<Rightarrow> Inr (Pins p)) of
           Inl e \<Rightarrow> Inl e
         | Inr value' \<Rightarrow>
             if key = ''pin_run_as_build''
             then (case value of Pins p \<Rightarrow> Inr (key, Pins (sort_pins p)) | _ \<Rightarrow> Inl AttributeError)
             else Inr (key, value')))"

text \<open>\<open>sort_config\<close> changes \<open>config\<close> in place; here it returns the changed Config.\<close>

definition sort_config :: "dict \<Rightarrow> string list list \<Rightarrow> error + dict" where
  "sort_config config zip_key_groups =
     (let groups = filter (\<lambda>group. group \<noteq> [])
                     (map (\<lambda>group. filter (\<lambda>pkg. map_of config pkg \<noteq> None) group)
                        zip_key_groups)
      in case sorting_orders config groups [] of
           Inl e \<Rightarrow> Inl e
         | Inr sorting_order \<Rightarrow> collect (sort_item sorting_order) config)"

text \<open>
  For the statements about \<open>sort_config\<close>. The domain of a variable is the list of
  scalars a mapping holds for it. The groups \<open>sort_config\<close> works with are the zip
  groups restricted to the keys of the Config, the empty ones left out; the rows of a group
  are the tuples of its members' values, position by position. The sorted value of the value
  a Config holds for a key: a list of scalars whose key is in a zip group is rearranged as
  the stable ascending order of the rows of that group asks (of the last such group, whose
  order overwrites the earlier ones), any other list is sorted ascending; a dict is kept,
  \<open>pin_run_as_build\<close> re-emitted. A Config is \<open>sortable\<close> when the members of a zip
  group that it holds are lists of scalars of one length, and \<open>pin_run_as_build\<close>, if
  present, is a dict.
\<close>

definition domain_of :: "dict \<Rightarrow> string \<Rightarrow> string list" where
  "domain_of sv k = (case map_of sv k of Some (Strs xs) \<Rightarrow> xs | _ \<Rightarrow> [])"

definition present_groups :: "dict \<Rightarrow> string list list \<Rightarrow> string list list" where
  "present_groups config zip_key_groups =
     filter (\<lambda>g. g \<noteq> [])
       (map (\<lambda>g. filter (\<lambda>k. map_of config k \<noteq> None) g) zip_key_groups)"

definition group_rows :: "dict \<Rightarrow> string list \<Rightarrow> string list list" where
  "group_rows config g =
     map (\<lambda>idx. map (\<lambda>k. domain_of config k ! idx) g)
       [0..<length (domain_of config (hd g))]"

definition sorted_value :: "dict \<Rightarrow> string list list \<Rightarrow> string \<Rightarrow> val \<Rightarrow> val" where
  "sorted_value config zip_key_groups k v =
     (case v of
        Strs xs \<Rightarrow>
          Strs (case find (\<lambda>g. k \<in> set g) (rev (present_groups config zip_key_groups)) of
                  None \<Rightarrow> sort xs
                | Some g \<Rightarrow> map (\<lambda>i. xs ! i) (argsort (group_rows config g)))
      | Groups gs \<Rightarrow> Groups (sort gs)
      | Pins p \<Rightarrow> Pins (if k = ''pin_run_as_build'' then sort_pins p else p))"

definition sortable :: "dict \<Rightarrow> string list list \<Rightarrow> bool" where
  "sortable config zip_key_groups \<longleftrightarrow>
     (\<forall>g \<in> set zip_key_groups. \<exists>n. \<forall>k \<in> set g. \<forall>v. map_of config k = Some v \<longrightarrow>
         (\<exists>xs. v = Strs xs \<and> length xs = n))
     \<and> (\<forall>v. map_of config ''pin_run_as_build'' = Some v \<longrightarrow> (\<exists>p. v = Pins p))"

text \<open>
  For the proofs: the orders computed for the keys are good when each is a permutation of
  the positions of the list its key holds.
\<close>

definition good_orders :: "dict \<Rightarrow> (string \<times> nat list) list \<Rightarrow> bool" where
  "good_orders config so \<longleftrightarrow>
     (\<forall>key order. map_of so key = Some order \<longrightarrow>
        (\<exists>xs. map_of config key = Some (Strs xs) \<and> mset order = mset [0..<length xs]))"


section \<open>Partitioning: \<open>break_up_top_level_values\<close>\<close>

text \<open>
  The groups read at the start, as in \<open>_trim_unused_zip_keys\<close>: a non-empty list of
  scalars is wrapped into one group.
\<close>

definition initial_zip_key_groups :: "dict \<Rightarrow> error + string list list" where
  "initial_zip_key_groups squished_variants =
     (case map_of squished_variants ''zip_keys'' of
        None \<Rightarrow> Inr []
      | Some (Groups gs) \<Rightarrow> Inr gs
      | Some (Strs []) \<Rightarrow> Inr []
      | Some (Strs (x # xs)) \<Rightarrow> Inr [x # xs]
      | Some (Pins []) \<Rightarrow> Inr []
      | Some (Pins (_ # _)) \<Rightarrow> Inl KeyError)"

text \<open>
  The groups read again before sorting, this time as they stand: iterating a string yields
  its characters, iterating a dict its keys.
\<close>

fun raw_groups :: "val \<Rightarrow> string list list" where
  "raw_groups (Groups gs) = gs"
| "raw_groups (Strs xs) = map (map (\<lambda>c. [c])) xs"
| "raw_groups (Pins p) = map (map (\<lambda>c. [c])) (map fst p)"

text \<open>
  The loop over the rows of a zip group: \<open>top_level_config_dict\<close> maps the tuple of the
  top-level members' values to the rows that have it, in the order the tuples first occur.
\<close>

fun zip_rows ::
  "string list \<Rightarrow> string list \<Rightarrow> dict \<Rightarrow> nat list
     \<Rightarrow> (string list \<times> (string \<times> string list) list list) list
     \<Rightarrow> error + (string list \<times> (string \<times> string list) list list) list" where
  "zip_rows top_level_keys grp sv [] top_level_config_dict = Inr top_level_config_dict"
| "zip_rows top_level_keys grp sv (idx # idxs) top_level_config_dict =
     (case collect (\<lambda>k. cell sv k idx) (filter (\<lambda>k. k \<in> set top_level_keys) grp) of
        Inl e \<Rightarrow> Inl e
      | Inr top_level_config \<Rightarrow>
          (case collect (\<lambda>k. cell sv k idx) grp of
             Inl e \<Rightarrow> Inl e
           | Inr values \<Rightarrow>
               zip_rows top_level_keys grp sv idxs
                 (AList.update top_level_config
                    ((case map_of top_level_config_dict top_level_config of
                        None \<Rightarrow> [] | Some rows \<Rightarrow> rows)
                     @ [foldl (\<lambda>d (k, v). AList.update k [v] d) [] (zip grp values)])
                    top_level_config_dict)))"

text \<open>\<open>for k in group: del squished_variants[k]\<close>.\<close>

fun delete_keys :: "string list \<Rightarrow> dict \<Rightarrow> error + dict" where
  "delete_keys [] sv = Inr sv"
| "delete_keys (k # ks) sv =
     (if map_of sv k = None then Inl KeyError else delete_keys ks (AList.delete k sv))"

text \<open>\<open>[{key: [val]} for val in squished_variants[key]]\<close>.\<close>

fun dimension :: "string \<Rightarrow> val \<Rightarrow> dict list" where
  "dimension key (Strs xs) = map (\<lambda>val. [(key, Strs [val])]) xs"
| "dimension key (Groups gs) = map (\<lambda>val. [(key, Groups [val])]) gs"
| "dimension key (Pins p) = map (\<lambda>val. [(key, Strs [val])]) (map fst p)"

text \<open>
  The loop over \<open>top_level_keys\<close>, a set, given as the list of its elements in the order
  of iteration. The state is \<open>accounted_for_keys\<close>, \<open>zipped_configs\<close>,
  \<open>top_level_dimensions\<close> and \<open>squished_variants\<close>.
\<close>

fun break_up_loop ::
  "string list \<Rightarrow> string list list \<Rightarrow> string list
     \<Rightarrow> string list \<times> dict list list \<times> dict list list \<times> dict
     \<Rightarrow> error + string list \<times> dict list list \<times> dict list list \<times> dict" where
  "break_up_loop top_level_keys zip_key_groups [] st = Inr st"
| "break_up_loop top_level_keys zip_key_groups (key # keys)
       (accounted_for_keys, zipped_configs, top_level_dimensions, sv) =
     (if key \<in> set accounted_for_keys
      then break_up_loop top_level_keys zip_key_groups keys
             (accounted_for_keys, zipped_configs, top_level_dimensions, sv)
      else (case find (\<lambda>g. key \<in> set g) zip_key_groups of
              Some grp \<Rightarrow>
                (case map_of sv key of
                   None \<Rightarrow> Inl KeyError
                 | Some v \<Rightarrow>
                     (case zip_rows top_level_keys grp sv [0..<value_len v] [] of
                        Inl e \<Rightarrow> Inl e
                      | Inr top_level_config_dict \<Rightarrow>
                          (case delete_keys grp sv of
                             Inl e \<Rightarrow> Inl e
                           | Inr sv' \<Rightarrow>
                               break_up_loop top_level_keys zip_key_groups keys
                                 (accounted_for_keys @ grp,
                                  zipped_configs @
                                    [map (\<lambda>(_, variant_key_val).
                                            map (\<lambda>(k, xs). (k, Strs xs))
                                              (merge_list_of_dicts variant_key_val))
                                       top_level_config_dict],
                                  top_level_dimensions, sv'))))
            | None \<Rightarrow>
                (case map_of sv key of
                   None \<Rightarrow> Inl KeyError
                 | Some v \<Rightarrow>
                     break_up_loop top_level_keys zip_key_groups keys
                       (accounted_for_keys, zipped_configs,
                        top_level_dimensions @ [dimension key v], AList.delete key sv))))"

text \<open>\<open>config.update(perm)\<close>.\<close>

definition dict_update :: "dict \<Rightarrow> dict \<Rightarrow> dict" where
  "dict_update config perm = foldl (\<lambda>c (k, v). AList.update k v c) config perm"

definition break_up_top_level_values :: "string list \<Rightarrow> dict \<Rightarrow> error + dict list" where
  "break_up_top_level_values top_level_keys squished_variants =
     (case initial_zip_key_groups squished_variants of
        Inl e \<Rightarrow> Inl e
      | Inr zip_key_groups \<Rightarrow>
          (case break_up_loop top_level_keys zip_key_groups top_level_keys
                  ([], [], [], squished_variants) of
             Inl e \<Rightarrow> Inl e
           | Inr (accounted_for_keys, zipped_configs, top_level_dimensions, sv) \<Rightarrow>
               (let zip_key_groups' =
                      (case map_of sv ''zip_keys'' of
                         Some z \<Rightarrow> raw_groups z
                       | None \<Rightarrow> zip_key_groups)
                in case sort_config sv zip_key_groups' of
                     Inl e \<Rightarrow> Inl e
                   | Inr sv' \<Rightarrow>
                       (case collect (collect (\<lambda>config. sort_config config zip_key_groups'))
                               zipped_configs of
                          Inl e \<Rightarrow> Inl e
                        | Inr zipped_configs' \<Rightarrow>
                            Inr (map (foldl dict_update [])
                                   (product_lists
                                      (top_level_dimensions @ zipped_configs'
                                       @ (if sv' \<noteq> [] then [[sv']] else []))))))))"
















text \<open>
  For the statement about \<open>zip_keys\<close> in the emitted Configs: every value a mapping
  holds under \<open>zip_keys\<close> is a list of groups taken from the set \<open>S\<close>.
\<close>

definition zip_keys_within :: "string list set \<Rightarrow> dict \<Rightarrow> bool" where
  "zip_keys_within S d \<longleftrightarrow>
     (\<forall>v. (''zip_keys'', v) \<in> set d \<longrightarrow> (\<exists>gs'. v = Groups gs' \<and> set gs' \<subseteq> S))"

section \<open>Trimming zip groups: \<open>_trim_unused_zip_keys\<close>\<close>

text \<open>
  The groups read from \<open>zip_keys\<close>: a list whose first element is a list is taken as it
  is, a non-empty list of scalars is one group, an empty value gives no group; a non-empty
  dict fails at \<open>groups[0]\<close>.
\<close>

definition trim_groups :: "dict \<Rightarrow> error + string list list" where
  "trim_groups all_used_vars =
     (case map_of all_used_vars ''zip_keys'' of
        None \<Rightarrow> Inr []
      | Some (Groups gs) \<Rightarrow> Inr gs
      | Some (Strs []) \<Rightarrow> Inr []
      | Some (Strs (x # xs)) \<Rightarrow> Inr [x # xs]
      | Some (Pins []) \<Rightarrow> Inr []
      | Some (Pins (_ # _)) \<Rightarrow> Inl KeyError)"

definition used_groups :: "dict \<Rightarrow> string list list \<Rightarrow> string list list" where
  "used_groups all_used_vars groups =
     filter (\<lambda>used_keys_in_group. length used_keys_in_group > 1)
       (map (\<lambda>group. filter (\<lambda>k. map_of all_used_vars k \<noteq> None) group) groups)"

definition trim_unused_zip_keys :: "dict \<Rightarrow> error + dict" where
  "trim_unused_zip_keys all_used_vars =
     (case trim_groups all_used_vars of
        Inl e \<Rightarrow> Inl e
      | Inr groups \<Rightarrow>
          if used_groups all_used_vars groups \<noteq> []
          then Inr (AList.update ''zip_keys'' (Groups (used_groups all_used_vars groups))
                      all_used_vars)
          else if map_of all_used_vars ''zip_keys'' \<noteq> None
          then Inr (AList.delete ''zip_keys'' all_used_vars)
          else Inr all_used_vars)"

section \<open>Fallback values: \<open>finalize_config\<close>\<close>

text \<open>The two entries of \<open>forge_config\<close> the function reads.\<close>

record forge_config =
  fc_build_platform :: "(string \<times> string) list"
  fc_docker_fallback_image :: string

text \<open>\<open>[v[0]]\<close>: a dict has no key \<open>0\<close>.\<close>

fun first_elem :: "val \<Rightarrow> error + val" where
  "first_elem (Strs []) = Inl IndexError"
| "first_elem (Strs (x # _)) = Inr (Strs [x])"
| "first_elem (Groups []) = Inl IndexError"
| "first_elem (Groups (g # _)) = Inr (Groups [g])"
| "first_elem (Pins _) = Inl KeyError"

text \<open>
  What \<open>for ziplist in config["zip_keys"]\<close> runs over: for each element whether
  \<open>"docker_image" in ziplist\<close> holds, and the keys \<open>for key in ziplist\<close> yields. A group
  is a list of names; were an element a string, the test is a substring test and the keys
  are its characters; iterating a dict yields its keys.
\<close>

fun ziplists :: "val \<Rightarrow> (bool \<times> string list) list" where
  "ziplists (Groups gs) = map (\<lambda>g. (''docker_image'' \<in> set g, g)) gs"
| "ziplists (Strs xs) = map (\<lambda>s. (sublist ''docker_image'' s, map (\<lambda>c. [c]) s)) xs"
| "ziplists (Pins p) = map (\<lambda>s. (sublist ''docker_image'' s, map (\<lambda>c. [c]) s)) (map fst p)"

fun truncate_keys :: "string list \<Rightarrow> dict \<Rightarrow> error + dict" where
  "truncate_keys [] config = Inr config"
| "truncate_keys (key # keys) config =
     (if key \<noteq> ''docker_image''
      then (case map_of config key of
              None \<Rightarrow> Inl KeyError
            | Some v \<Rightarrow> (case first_elem v of
                          Inl e \<Rightarrow> Inl e
                        | Inr v' \<Rightarrow> truncate_keys keys (AList.update key v' config)))
      else truncate_keys keys config)"

fun ziplists_loop :: "(bool \<times> string list) list \<Rightarrow> dict \<Rightarrow> error + dict" where
  "ziplists_loop [] config = Inr config"
| "ziplists_loop ((has_docker_image, ziplist) # rest) config =
     (if has_docker_image
      then (case truncate_keys ziplist config of
              Inl e \<Rightarrow> Inl e
            | Inr config' \<Rightarrow> ziplists_loop rest config')
      else ziplists_loop rest config)"

definition set_docker_image :: "dict \<Rightarrow> forge_config \<Rightarrow> error + dict" where
  "set_docker_image config forge_config =
     (case map_of config ''docker_image'' of
        Some v \<Rightarrow> (case first_elem v of
                      Inl e \<Rightarrow> Inl e
                    | Inr v' \<Rightarrow> Inr (AList.update ''docker_image'' v' config))
      | None \<Rightarrow>
          Inr (AList.update ''docker_image'' (Strs [fc_docker_fallback_image forge_config])
                 config))"

definition finalize_config :: "dict \<Rightarrow> string \<Rightarrow> string \<Rightarrow> forge_config \<Rightarrow> error + dict" where
  "finalize_config config platform arch forge_config =
     (case map_of (fc_build_platform forge_config) (platform @ ''_'' @ arch) of
        None \<Rightarrow> Inl KeyError
      | Some build_platform \<Rightarrow>
          if prefix ''linux'' build_platform
          then (case set_docker_image config forge_config of
                  Inl e \<Rightarrow> Inl e
                | Inr config' \<Rightarrow>
                    (case map_of config' ''zip_keys'' of
                       None \<Rightarrow> Inr config'
                     | Some zip_keys \<Rightarrow> ziplists_loop (ziplists zip_keys) config'))
          else Inr config)"

text \<open>
  For the statements about \<open>finalize_config\<close>: \<open>truncated_on K c c'\<close> says that \<open>c'\<close>
  holds for each key of \<open>K\<close> the singleton list of the first element \<open>c\<close> holds for it,
  and for every other key what \<open>c\<close> holds; \<open>truncated_keys\<close> are the keys the loop over
  the zip groups assigns; a key is \<open>truncatable\<close> when \<open>[config[key][0]]\<close> does not
  raise.
\<close>

definition truncated_on :: "string set \<Rightarrow> dict \<Rightarrow> dict \<Rightarrow> bool" where
  "truncated_on K c c' \<longleftrightarrow>
     (\<forall>k. if k \<in> K
          then (\<exists>v w. map_of c k = Some v \<and> first_elem v = Inr w \<and> map_of c' k = Some w)
          else map_of c' k = map_of c k)"

fun truncated_keys :: "(bool \<times> string list) list \<Rightarrow> string set" where
  "truncated_keys [] = {}"
| "truncated_keys ((b, g) # zs) = (if b then set g - {''docker_image''} else {}) \<union> truncated_keys zs"

definition truncatable :: "dict \<Rightarrow> string \<Rightarrow> bool" where
  "truncatable c k \<longleftrightarrow> (\<exists>v w. map_of c k = Some v \<and> first_elem v = Inr w)"

section \<open>Migrations: \<open>get_migrations_in_dir\<close>, \<open>set_migration_fns\<close>, \<open>migrate_combined_spec\<close>\<close>

text \<open>
  What \<open>yaml.load(contents, Loader=yaml.loader.BaseLoader)\<close> returns for a file that
  parses: the base loader yields every scalar as a string (also an empty value, as the
  empty string), a sequence as a list and a mapping as a dict; a key of a mapping is a
  string, since the loader refuses a key that cannot be hashed. Two dicts are equal in
  Python when they hold the same values under the same keys, whatever the order, as two
  finite maps are here. An empty document loads as \<open>None\<close>.
\<close>

datatype yaml = Scalar string | Seq "yaml list" | Mapping "(string, yaml) fmap"

text \<open>\<open>loaded or {}\<close>: \<open>None\<close>, the empty string, list and dict are false.\<close>

definition or_empty_dict :: "yaml option \<Rightarrow> yaml" where
  "or_empty_dict loaded =
     (case loaded of
        None \<Rightarrow> Mapping fmempty
      | Some (Scalar s) \<Rightarrow> if s = [] then Mapping fmempty else Scalar s
      | Some (Seq xs) \<Rightarrow> if xs = [] then Mapping fmempty else Seq xs
      | Some (Mapping m) \<Rightarrow> Mapping m)"

text \<open>
  \<open>obj.get(key, default)\<close>: \<open>None\<close> stands for the default, which each caller
  supplies; a string and a list have no method \<open>get\<close>.
\<close>

fun dict_get :: "yaml \<Rightarrow> string \<Rightarrow> error + yaml option" where
  "dict_get (Mapping m) key = Inr (fmlookup m key)"
| "dict_get (Scalar s) key = Inl AttributeError"
| "dict_get (Seq xs) key = Inl AttributeError"

text \<open>
  \<open>str.lower\<close>, character by character. Only the letters \<open>A\<close> to \<open>Z\<close> have a
  lower-case form among the letters of \<open>"true"\<close>, the one word the result is compared
  with. A list and a dict have no method \<open>lower\<close>.
\<close>

definition lower_char :: "char \<Rightarrow> char" where
  "lower_char c =
     (case map_of (zip ''ABCDEFGHIJKLMNOPQRSTUVWXYZ'' ''abcdefghijklmnopqrstuvwxyz'') c of
        Some l \<Rightarrow> l
      | None \<Rightarrow> c)"

fun py_lower :: "yaml \<Rightarrow> error + string" where
  "py_lower (Scalar s) = Inr (map lower_char s)"
| "py_lower (Seq xs) = Inl AttributeError"
| "py_lower (Mapping m) = Inl AttributeError"

text \<open>
  \<open>migration_number\<close> as the code holds it: the value loaded from the file, or the
  default, which is the integer \<open>1\<close>. In Python \<open>1 == "1"\<close> is false, as here.
\<close>

datatype py_value = PyInt int | Loaded yaml

text \<open>
  The three values \<open>get_migrations_in_dir\<close> reads of one file, in the order of the
  code: \<open>ts\<close> (\<open>None\<close> for the default \<open>object()\<close>), \<open>migration_number\<close> and
  \<open>use_local\<close>.
\<close>

definition read_migration :: "yaml option \<Rightarrow> error + yaml option \<times> py_value \<times> bool" where
  "read_migration loaded =
     (let migration_yaml = or_empty_dict loaded in
      case dict_get migration_yaml ''migrator_ts'' of
        Inl e \<Rightarrow> Inl e
      | Inr ts \<Rightarrow>
          (case dict_get migration_yaml ''__migrator'' of
             Inl e \<Rightarrow> Inl e
           | Inr migrator \<Rightarrow>
               (case dict_get (case migrator of None \<Rightarrow> Mapping fmempty | Some m \<Rightarrow> m)
                       ''migration_number'' of
                  Inl e \<Rightarrow> Inl e
                | Inr number \<Rightarrow>
                    (case dict_get (case migrator of None \<Rightarrow> Mapping fmempty | Some m \<Rightarrow> m)
                            ''use_local'' of
                       Inl e \<Rightarrow> Inl e
                     | Inr flag \<Rightarrow>
                         (case py_lower (case flag of None \<Rightarrow> Scalar ''false'' | Some s \<Rightarrow> s) of
                            Inl e \<Rightarrow> Inl e
                          | Inr lowered \<Rightarrow>
                              Inr (ts,
                                   (case number of None \<Rightarrow> PyInt 1 | Some n \<Rightarrow> Loaded n),
                                   lowered = ''true''))))))"

text \<open>
  The key of the result: the timestamp string, or the fresh \<open>object()\<close> made for a file
  without one. A fresh object is equal to itself only; it is identified by the position
  of its file in the listing. A list and a dict cannot be hashed: \<open>res[ts] = ...\<close>
  raises \<open>TypeError\<close>.
\<close>

datatype ts_key = Stamp string | Fresh nat

fun dict_key :: "nat \<Rightarrow> yaml option \<Rightarrow> error + ts_key" where
  "dict_key i None = Inr (Fresh i)"
| "dict_key i (Some (Scalar t)) = Inr (Stamp t)"
| "dict_key i (Some (Seq xs)) = Inl TypeError"
| "dict_key i (Some (Mapping m)) = Inl TypeError"

type_synonym migration_entry = "string \<times> py_value \<times> bool"

text \<open>
  A directory is the list \<open>glob\<close> returns for it, each path with what the loader returns
  for its file. The loop of \<open>get_migrations_in_dir\<close>, from the \<open>i\<close>-th file on.
\<close>

fun migrations_loop ::
  "nat \<Rightarrow> (string \<times> yaml option) list \<Rightarrow> (ts_key \<times> migration_entry) list
     \<Rightarrow> error + (ts_key \<times> migration_entry) list" where
  "migrations_loop i [] res = Inr res"
| "migrations_loop i ((fn, loaded) # files) res =
     (case read_migration loaded of
        Inl e \<Rightarrow> Inl e
      | Inr (ts, migration_number, use_local) \<Rightarrow>
          (case dict_key i ts of
             Inl e \<Rightarrow> Inl e
           | Inr key \<Rightarrow>
               migrations_loop (Suc i) files
                 (AList.update key (fn, migration_number, use_local) res)))"

definition get_migrations_in_dir ::
  "(string \<times> yaml option) list \<Rightarrow> error + (ts_key \<times> migration_entry) list" where
  "get_migrations_in_dir files = migrations_loop 0 files []"

text \<open>\<open>isinstance(ts, (int, str, float))\<close>.\<close>

fun is_stamp :: "ts_key \<Rightarrow> bool" where
  "is_stamp (Stamp _) = True"
| "is_stamp (Fresh _) = False"

text \<open>
  The loop of \<open>set_migration_fns\<close> over \<open>migrations_in_feedstock.items()\<close>; it returns
  \<open>result\<close> and the files given to \<open>remove_file\<close>, both in the order of the loop.
\<close>

fun select_migrations ::
  "(ts_key \<times> migration_entry) list \<Rightarrow> (ts_key \<times> migration_entry) list
     \<Rightarrow> string list \<times> string list" where
  "select_migrations migrations_in_cfp [] = ([], [])"
| "select_migrations migrations_in_cfp ((ts, fn, num, use_local) # items) =
     (case select_migrations migrations_in_cfp items of (result, removed) \<Rightarrow>
        if use_local \<or> \<not> is_stamp ts then (fn # result, removed)
        else (case map_of migrations_in_cfp ts of
                Some (new_fn, new_num, _) \<Rightarrow>
                  if num = new_num then (new_fn # result, removed)
                  else (fn # result, removed)
              | None \<Rightarrow> (result, fn # removed)))"

text \<open>
  \<open>set_migration_fns\<close>: the feedstock's migrations directory, and the one of the pinning
  package, \<open>None\<close> when \<open>os.path.exists(cfp_migrations_dir)\<close> is false. It returns
  \<open>forge_config["migration_fns"]\<close> and the removed files; when reading a directory
  raises, no file has been removed yet.
\<close>

definition set_migration_fns ::
  "(string \<times> yaml option) list \<Rightarrow> (string \<times> yaml option) list option
     \<Rightarrow> error + string list \<times> string list" where
  "set_migration_fns feedstock_dir cfp_migrations_dir =
     (case get_migrations_in_dir feedstock_dir of
        Inl e \<Rightarrow> Inl e
      | Inr migrations_in_feedstock \<Rightarrow>
          (case cfp_migrations_dir of
             None \<Rightarrow> Inr (map (\<lambda>(ts, fn, num, ul). fn) migrations_in_feedstock, [])
           | Some cfp \<Rightarrow>
               (case get_migrations_in_dir cfp of
                  Inl e \<Rightarrow> Inl e
                | Inr migrations_in_cfp \<Rightarrow>
                    Inr (select_migrations migrations_in_cfp migrations_in_feedstock))))"

text \<open>
  \<open>migrate_combined_spec\<close>. The module \<open>variant_algebra\<close> is not part of the sources at
  hand: \<open>variant_add\<close> is a parameter, and so is \<open>parse_variant(open(fn).read())\<close>, which
  gives for a file name the parsed migration, here its \<open>migrator_ts\<close> if it has one and
  its other keys. \<open>migrations\<close> is \<open>forge_config["migration_fns"]\<close>.
\<close>

type_synonym ('t, 'v) migration = "'t option \<times> (string \<times> 'v) list"

text \<open>The sort keys \<open>(fn_v[1]["migrator_ts"], fn_v[0])\<close>; a missing timestamp raises.\<close>

fun sort_keys ::
  "(string \<times> ('t, 'v) migration) list
     \<Rightarrow> error + (('t \<times> string) \<times> (string \<times> 'v) list) list" where
  "sort_keys [] = Inr []"
| "sort_keys ((fn, (None, body)) # rest) = Inl KeyError"
| "sort_keys ((fn, (Some t, body)) # rest) =
     (case sort_keys rest of Inl e \<Rightarrow> Inl e | Inr ks \<Rightarrow> Inr (((t, fn), body) # ks))"

text \<open>One turn of the final loop: the timestamp is gone, an empty migration is skipped.\<close>

definition apply_migration ::
  "('s \<Rightarrow> (string \<times> 'v) list \<Rightarrow> 's) \<Rightarrow> 's \<Rightarrow> (string \<times> 'v) list \<Rightarrow> 's" where
  "apply_migration variant_add combined_spec body =
     (if length body \<noteq> 0 then variant_add combined_spec body else combined_spec)"

definition migrate_combined_spec ::
  "('s \<Rightarrow> (string \<times> 'v) list \<Rightarrow> 's) \<Rightarrow> (string \<Rightarrow> ('t::linorder, 'v) migration)
     \<Rightarrow> 's \<Rightarrow> string list \<Rightarrow> error + 's" where
  "migrate_combined_spec variant_add parse_variant_file combined_spec migrations =
     (let migration_variants = map (\<lambda>fn. (fn, parse_variant_file fn)) migrations in
      case sort_keys migration_variants of
        Inl e \<Rightarrow> Inl e
      | Inr keyed \<Rightarrow>
          Inr (foldl (apply_migration variant_add) combined_spec
                 (map snd (sort_key fst keyed))))"

text \<open>
  For the proofs: the three values of a file with the timestamp as the key needs it (a
  string, or none), which fails where \<open>read_migration\<close> or the hashing of the key does;
  a listing with the values read of each file; and the key and the entry each file of such
  a listing gives, in the order of the listing, before the dict collapses equal keys.
\<close>

type_synonym fields = "string option \<times> py_value \<times> bool"

definition read_fields :: "yaml option \<Rightarrow> error + fields" where
  "read_fields loaded =
     (case read_migration loaded of
        Inl e \<Rightarrow> Inl e
      | Inr (ts, n, u) \<Rightarrow>
          (case ts of
             None \<Rightarrow> Inr (None, n, u)
           | Some (Scalar t) \<Rightarrow> Inr (Some t, n, u)
           | Some (Seq xs) \<Rightarrow> Inl TypeError
           | Some (Mapping m) \<Rightarrow> Inl TypeError))"

definition reads :: "(string \<times> yaml option) list \<Rightarrow> (string \<times> fields) list \<Rightarrow> bool" where
  "reads files ys \<longleftrightarrow>
     list_all2 (\<lambda>f y. fst y = fst f \<and> read_fields (snd f) = Inr (snd y)) files ys"

fun ts_of :: "nat \<Rightarrow> fields \<Rightarrow> ts_key" where
  "ts_of i (None, n, u) = Fresh i"
| "ts_of i (Some t, n, u) = Stamp t"

fun keyed :: "nat \<Rightarrow> (string \<times> fields) list \<Rightarrow> (ts_key \<times> migration_entry) list" where
  "keyed i [] = []"
| "keyed i ((fn, y) # files) = (ts_of i y, fn, snd y) # keyed (Suc i) files"

section \<open>Naming: results\<close>

lemma key_parts_Inr_iff:
  "key_parts config ks = Inr key \<longleftrightarrow>
     (\<exists>vals. list_all2 (\<lambda>k v. first_value config k = Inr v)
               (filter (\<lambda>k. k \<noteq> ''target_platform'') ks) vals
        \<and> key = concat (map2 (@) (filter (\<lambda>k. k \<noteq> ''target_platform'') ks) vals))"
proof (induction ks arbitrary: key)
  case Nil
  show ?case by auto
next
  case (Cons k ks)
  show ?case
  proof (cases "k = ''target_platform''")
    case True
    then show ?thesis using Cons.IH by simp
  next
    case False
    show ?thesis
    proof
      assume a: "key_parts config (k # ks) = Inr key"
      from a False obtain v r where v: "first_value config k = Inr v"
        and r: "key_parts config ks = Inr r" and key: "key = k @ v @ r"
        by (auto split: sum.splits)
      from r Cons.IH obtain vals where
        vals: "list_all2 (\<lambda>k v. first_value config k = Inr v)
                 (filter (\<lambda>k. k \<noteq> ''target_platform'') ks) vals"
        and req: "r = concat (map2 (@) (filter (\<lambda>k. k \<noteq> ''target_platform'') ks) vals)"
        by blast
      show "\<exists>vals. list_all2 (\<lambda>k v. first_value config k = Inr v)
               (filter (\<lambda>k. k \<noteq> ''target_platform'') (k # ks)) vals
        \<and> key = concat (map2 (@) (filter (\<lambda>k. k \<noteq> ''target_platform'') (k # ks)) vals)"
        using False v vals req key by (intro exI[of _ "v # vals"]) simp
    next
      assume "\<exists>vals. list_all2 (\<lambda>k v. first_value config k = Inr v)
               (filter (\<lambda>k. k \<noteq> ''target_platform'') (k # ks)) vals
        \<and> key = concat (map2 (@) (filter (\<lambda>k. k \<noteq> ''target_platform'') (k # ks)) vals)"
      then obtain vals where
        l: "list_all2 (\<lambda>k v. first_value config k = Inr v)
              (k # filter (\<lambda>k. k \<noteq> ''target_platform'') ks) vals"
        and key: "key = concat (map2 (@) (k # filter (\<lambda>k. k \<noteq> ''target_platform'') ks) vals)"
        using False by auto
      from l obtain v vs where vals: "vals = v # vs" and v: "first_value config k = Inr v"
        and vs: "list_all2 (\<lambda>k v. first_value config k = Inr v)
                   (filter (\<lambda>k. k \<noteq> ''target_platform'') ks) vs"
        by (auto simp: list_all2_Cons1)
      have "key_parts config ks
              = Inr (concat (map2 (@) (filter (\<lambda>k. k \<noteq> ''target_platform'') ks) vs))"
        using Cons.IH vs by blast
      then show "key_parts config (k # ks) = Inr key"
        using False v key vals by simp
    qed
  qed
qed

text \<open>
  C2, as the code has it. The config name is \<open>platform_arch_\<close> followed by the top-level
  variable names in ascending order, without \<open>target_platform\<close>, each immediately followed
  by the first value the Config holds for it; in that key only the characters \<open>*\<close> and
  space are replaced by an underscore, every other character is kept. The name exists
  exactly when each of those variables has a non-empty list of scalars in the Config.
\<close>

theorem config_name_star_space_only:
  "config_name platform arch config vars subdir = Inr name \<longleftrightarrow>
     (\<exists>vals. list_all2 (\<lambda>k v. first_value config k = Inr v)
               (filter (\<lambda>k. k \<noteq> ''target_platform'') (sorted_list_of_set (set vars))) vals
        \<and> name = platform @ ''_'' @ arch @ ''_'' @
            map (\<lambda>c. if c = CHR ''*'' \<or> c = CHR '' '' then CHR ''_'' else c)
              (concat (map2 (@)
                 (filter (\<lambda>k. k \<noteq> ''target_platform'') (sorted_list_of_set (set vars))) vals)))"
proof -
  have rep: "replace_char CHR '' '' CHR ''_'' (replace_char CHR ''*'' CHR ''_'' s)
               = map (\<lambda>c. if c = CHR ''*'' \<or> c = CHR '' '' then CHR ''_'' else c) s" for s
    by (simp add: replace_char_def)
  have "config_name platform arch config vars subdir = Inr name \<longleftrightarrow>
          (\<exists>r. key_parts config (sorted_list_of_set (set vars)) = Inr r
             \<and> name = platform @ ''_'' @ arch @ ''_'' @
                 map (\<lambda>c. if c = CHR ''*'' \<or> c = CHR '' '' then CHR ''_'' else c) r)"
    unfolding config_name_def package_key_def rep
    by (auto split: sum.splits)
  then show ?thesis
    unfolding key_parts_Inr_iff by blast
qed

text \<open>
  C2 as the specification states it fails: for the Config \<open>{python: ["3.9"]}\<close> on
  \<open>linux\<close>/\<open>64\<close> the code names the Config \<open>linux_64_python3.9\<close>; the full stop is
  not a letter or a digit and is not replaced.
\<close>

theorem config_name_keeps_full_stop:
  "config_name ''linux'' ''64'' [(''python'', Strs [''3.9''])] [''python''] ''linux-64''
     = Inr ''linux_64_python3.9''
   \<and> spec_normalize ''linux_64_python3.9'' = ''linux_64_python3_9''
   \<and> config_name ''linux'' ''64'' [(''python'', Strs [''3.9''])] [''python''] ''linux-64''
     \<noteq> Inr (spec_normalize ''linux_64_python3.9'')"
  by (simp add: config_name_def package_key_def first_value_def replace_char_def
      spec_normalize_def is_alnum_def less_eq_char_def)

text \<open>
  C8. A name that with the prefix \<open>conda-forge-build-done-\<close> reaches 250 characters is
  replaced by its first 35 characters, \<open>_h\<close> and the first 10 characters of the hash of
  the whole name: a function of the name alone, of at most 47 characters, computed without
  any failing operation. A shorter name is emitted as it is.
\<close>

theorem emitted_config_name_short:
  "emitted_config_name sha name =
     (if 250 \<le> length (''conda-forge-build-done-'' @ name)
      then take 35 name @ ''_h'' @ take 10 (sha name) else name)
   \<and> (if 250 \<le> length (''conda-forge-build-done-'' @ name)
      then length (emitted_config_name sha name) \<le> 47
        \<and> take 35 (emitted_config_name sha name) = take 35 name
      else emitted_config_name sha name = name)"
  by (simp add: emitted_config_name_def short_config_name_def)

section \<open>Migrations: results\<close>

lemma read_fields_stamp:
  "read_fields d = Inr (Some t, n, u) \<longleftrightarrow> read_migration d = Inr (Some (Scalar t), n, u)"
  by (auto simp: read_fields_def split: sum.splits option.splits yaml.splits)

lemma read_fields_none:
  "read_fields d = Inr (None, n, u) \<longleftrightarrow> read_migration d = Inr (None, n, u)"
  by (auto simp: read_fields_def split: sum.splits option.splits yaml.splits)

lemma migrations_loop_step:
  "migrations_loop i ((fn, d) # files) res =
     (case read_fields d of
        Inl e \<Rightarrow> Inl e
      | Inr y \<Rightarrow> migrations_loop (Suc i) files (AList.update (ts_of i y) (fn, snd y) res))"
  by (auto simp: read_fields_def split: sum.splits option.splits yaml.splits)

lemma list_all2_left:
  "list_all2 P xs ys \<Longrightarrow> x \<in> set xs \<Longrightarrow> \<exists>y \<in> set ys. P x y"
  by (induction rule: list_all2_induct) auto

lemma list_all2_right:
  "list_all2 P xs ys \<Longrightarrow> y \<in> set ys \<Longrightarrow> \<exists>x \<in> set xs. P x y"
  by (induction rule: list_all2_induct) auto

lemma reads_names: "reads files ys \<Longrightarrow> map fst ys = map fst files"
  unfolding reads_def by (induction rule: list_all2_induct) auto

lemma reads_append:
  assumes "reads (pre @ (fn, d) # post) ys"
  obtains pre' y post' where "ys = pre' @ (fn, y) # post'" "length pre' = length pre"
    "reads pre pre'" "read_fields d = Inr y" "reads post post'"
proof -
  from assms obtain pre' rest where ys: "ys = pre' @ rest" and l: "length pre' = length pre"
    and p: "reads pre pre'" and r: "reads ((fn, d) # post) rest"
    unfolding reads_def by (auto simp: list_all2_append1)
  from r obtain fy post' where rest: "rest = fy # post'" and f: "fst fy = fn"
    "read_fields d = Inr (snd fy)" and q: "reads post post'"
    unfolding reads_def by (auto simp: list_all2_Cons1)
  from f(1) have "fy = (fn, snd fy)" by (cases fy) simp
  with ys rest have "ys = pre' @ (fn, snd fy) # post'" by simp
  then show thesis using l p f(2) q by (rule that)
qed

lemma reads_mem:
  assumes "reads files ys" "(fn, y) \<in> set ys"
  shows "\<exists>d. (fn, d) \<in> set files \<and> read_fields d = Inr y"
proof -
  from list_all2_right[OF assms(1)[unfolded reads_def] assms(2)]
  obtain f where "f \<in> set files" "fn = fst f" "read_fields (snd f) = Inr y" by auto
  then have "(fn, snd f) \<in> set files \<and> read_fields (snd f) = Inr y" by simp
  then show ?thesis ..
qed

lemma reads_no_stamp:
  assumes "reads files ys"
    and "\<forall>(f, z) \<in> set files. \<forall>n u. read_migration z \<noteq> Inr (Some (Scalar t), n, u)"
  shows "\<forall>(f, y) \<in> set ys. fst y \<noteq> Some t"
proof (clarify)
  fix f a n u assume m: "(f, a, n, u) \<in> set ys" and "fst (a, n, u) = Some t"
  then have m': "(f, Some t, n, u) \<in> set ys" by simp
  from reads_mem[OF assms(1) m'] obtain d where "(f, d) \<in> set files"
    "read_fields d = Inr (Some t, n, u)" by blast
  with assms(2) show False unfolding read_fields_stamp by blast
qed

lemma migrations_loop_reads:
  assumes "reads files ys"
  shows "\<exists>R. migrations_loop i files res = Inr R
     \<and> map_of R = map_of res ++ map_of (rev (keyed i ys))
     \<and> (distinct (map fst res) \<longrightarrow> distinct (map fst R))"
  using assms unfolding reads_def
proof (induction files ys arbitrary: i res rule: list_all2_induct)
  case Nil
  show ?case by simp
next
  case (Cons f files fy ys)
  obtain fn d where f: "f = (fn, d)" by (cases f)
  obtain fn' y where fy: "fy = (fn', y)" by (cases fy)
  from Cons.hyps(1) f fy have eq: "fn' = fn" and rd: "read_fields d = Inr y" by simp_all
  let ?res = "AList.update (ts_of i y) (fn, snd y) res"
  from Cons.IH[of "Suc i" ?res] obtain R where
    R: "migrations_loop (Suc i) files ?res = Inr R"
    and m: "map_of R = map_of ?res ++ map_of (rev (keyed (Suc i) ys))"
    and dd: "distinct (map fst ?res) \<longrightarrow> distinct (map fst R)" by blast
  have 1: "migrations_loop i (f # files) res = Inr R"
    unfolding f migrations_loop_step using rd R by simp
  have 2: "map_of R = map_of res ++ map_of (rev (keyed i (fy # ys)))"
    unfolding m fy eq
    by (rule ext) (simp add: update_conv' map_add_def split: option.splits)
  have 3: "distinct (map fst res) \<longrightarrow> distinct (map fst R)"
    using dd by (simp add: distinct_update)
  from 1 2 3 show ?case by blast
qed

lemma migrations_loop_Inr_reads:
  "migrations_loop i files res = Inr R \<Longrightarrow> \<exists>ys. reads files ys"
proof (induction files arbitrary: i res)
  case Nil
  show ?case by (simp add: reads_def)
next
  case (Cons f files)
  obtain fn d where f: "f = (fn, d)" by (cases f)
  from Cons.prems obtain y where rd: "read_fields d = Inr y"
    and rest: "migrations_loop (Suc i) files (AList.update (ts_of i y) (fn, snd y) res) = Inr R"
    unfolding f migrations_loop_step by (auto split: sum.splits)
  from Cons.IH[OF rest] obtain ys where "reads files ys" ..
  with rd have "reads (f # files) ((fn, y) # ys)" unfolding f reads_def by simp
  then show ?case ..
qed

lemma get_migrations_Inr:
  assumes "get_migrations_in_dir files = Inr R"
  obtains ys where "reads files ys" "map_of R = map_of (rev (keyed 0 ys))"
    "distinct (map fst R)"
proof -
  from assms have l: "migrations_loop 0 files [] = Inr R" by (simp add: get_migrations_in_dir_def)
  from migrations_loop_Inr_reads[OF l] obtain ys where ys: "reads files ys" ..
  from migrations_loop_reads[OF ys, of 0 "[]"] l
  have "map_of R = map_of (rev (keyed 0 ys))" "distinct (map fst R)" by auto
  with ys show thesis by (rule that)
qed

text \<open>
  \<open>get_migrations_in_dir\<close> returns exactly when each file of the listing is read without
  an exception: it loads as a dict or as a false value, its \<open>__migrator\<close>, if present,
  is a dict, its \<open>use_local\<close>, if present, is a string, and its \<open>migrator_ts\<close>, if
  present, is a string.
\<close>

lemma get_migrations_in_dir_returns:
  "(\<exists>R. get_migrations_in_dir files = Inr R) \<longleftrightarrow>
     (\<forall>(fn, d) \<in> set files. \<exists>ts n u. read_migration d = Inr (ts, n, u)
         \<and> (ts = None \<or> (\<exists>t. ts = Some (Scalar t))))"
proof
  assume "\<exists>R. get_migrations_in_dir files = Inr R"
  then obtain R where "get_migrations_in_dir files = Inr R" ..
  then obtain ys where ys: "reads files ys" by (rule get_migrations_Inr)
  show "\<forall>(fn, d) \<in> set files. \<exists>ts n u. read_migration d = Inr (ts, n, u)
         \<and> (ts = None \<or> (\<exists>t. ts = Some (Scalar t)))"
  proof (clarify)
    fix fn d assume "(fn, d) \<in> set files"
    from list_all2_left[OF ys[unfolded reads_def] this]
    obtain y where "read_fields d = Inr y" by auto
    then show "\<exists>ts n u. read_migration d = Inr (ts, n, u)
         \<and> (ts = None \<or> (\<exists>t. ts = Some (Scalar t)))"
      by (auto simp: read_fields_def split: sum.splits option.splits yaml.splits)
  qed
next
  assume a: "\<forall>(fn, d) \<in> set files. \<exists>ts n u. read_migration d = Inr (ts, n, u)
         \<and> (ts = None \<or> (\<exists>t. ts = Some (Scalar t)))"
  have "\<forall>f \<in> set files. \<exists>y. read_fields (snd f) = Inr y"
  proof
    fix f assume "f \<in> set files"
    with a obtain ts n u where "read_migration (snd f) = Inr (ts, n, u)"
      "ts = None \<or> (\<exists>t. ts = Some (Scalar t))" by (cases f) auto
    then show "\<exists>y. read_fields (snd f) = Inr y" by (auto simp: read_fields_def)
  qed
  then have "\<exists>ys. reads files ys"
  proof (induction files)
    case Nil
    show ?case by (simp add: reads_def)
  next
    case (Cons f files)
    then obtain y ys where "read_fields (snd f) = Inr y" "reads files ys" by auto
    then have "reads (f # files) ((fst f, y) # ys)" by (simp add: reads_def)
    then show ?case ..
  qed
  then obtain ys where "reads files ys" ..
  from migrations_loop_reads[OF this, of 0 "[]"]
  show "\<exists>R. get_migrations_in_dir files = Inr R" by (auto simp: get_migrations_in_dir_def)
qed

text \<open>
  A file whose \<open>__migrator\<close> has no value loads with the empty string there, which has no
  method \<open>get\<close>: reading the directory raises, whatever else the file holds. A
  \<open>migrator_ts\<close> that is a list cannot be the key of the result.
\<close>

lemma get_migrations_in_dir_empty_migrator:
  "get_migrations_in_dir
     [(''f/a.yaml'', Some (Mapping (fmap_of_list [(''__migrator'', Scalar '''')])))]
   = Inl AttributeError"
  by (simp add: get_migrations_in_dir_def read_migration_def or_empty_dict_def
      fmlookup_of_list)

lemma get_migrations_in_dir_list_timestamp:
  "get_migrations_in_dir
     [(''f/a.yaml'', Some (Mapping (fmap_of_list [(''migrator_ts'', Seq [Scalar ''1''])])))]
   = Inl TypeError"
  by (simp add: get_migrations_in_dir_def read_migration_def or_empty_dict_def
      fmlookup_of_list lower_char_def)

lemma retained_mem_iff:
  "distinct (map fst R) \<Longrightarrow> (k, e) \<in> set R \<longleftrightarrow> map_of R k = Some e"
  by simp

lemma retained_mem:
  assumes "map_of R = map_of (rev (keyed 0 ys))" "distinct (map fst R)"
  shows "(k, e) \<in> set R \<longleftrightarrow> map_of (rev (keyed 0 ys)) k = Some e"
  using assms by (metis map_of_eq_Some_iff)

lemma keyed_append:
  "keyed i (xs @ ys) = keyed i xs @ keyed (i + length xs) ys"
  by (induction xs arbitrary: i) auto

lemma keyed_fresh_ge: "(Fresh j, e) \<in> set (keyed i files) \<Longrightarrow> i \<le> j"
proof (induction files arbitrary: i)
  case Nil
  then show ?case by simp
next
  case (Cons f files)
  obtain fn t n u where f: "f = (fn, t, n, u)" by (cases f)
  from Cons.prems consider "Fresh j = ts_of i (t, n, u)" | "(Fresh j, e) \<in> set (keyed (Suc i) files)"
    unfolding f by auto
  then show ?case
  proof cases
    case 1
    then show ?thesis by (cases t) auto
  next
    case 2
    then have "Suc i \<le> j" by (rule Cons.IH)
    then show ?thesis by simp
  qed
qed

lemma keyed_names: "(k, fn, e) \<in> set (keyed i files) \<Longrightarrow> fn \<in> fst ` set files"
  by (induction files arbitrary: i) (auto, force)

lemma ts_of_stamp: "ts_of i y = Stamp t \<longleftrightarrow> fst y = Some t"
  by (cases "(i, y)" rule: ts_of.cases) auto

lemma ts_of_fresh: "is_stamp (ts_of i y) \<longleftrightarrow> fst y \<noteq> None"
  by (cases "(i, y)" rule: ts_of.cases) auto

lemma keyed_stamp_keys:
  "Stamp t \<in> fst ` set (keyed i files) \<longleftrightarrow> (\<exists>(fn, y) \<in> set files. fst y = Some t)"
proof (induction files arbitrary: i)
  case Nil
  show ?case by simp
next
  case (Cons f files)
  obtain fn y where f: "f = (fn, y)" by (cases f)
  have "Stamp t \<in> fst ` set (keyed i (f # files))
      \<longleftrightarrow> Stamp t = ts_of i y \<or> Stamp t \<in> fst ` set (keyed (Suc i) files)"
    unfolding f by simp
  also have "\<dots> \<longleftrightarrow> fst y = Some t \<or> (\<exists>(fn, y) \<in> set files. fst y = Some t)"
    unfolding Cons.IH using ts_of_stamp[of i y t] by auto
  finally show ?case unfolding f by simp
qed

lemma map_of_rev_last:
  "k \<notin> fst ` set post \<Longrightarrow> map_of (rev (pre @ (k, e) # post)) k = Some e"
  by (simp add: map_add_def map_of_eq_None_iff[THEN iffD2] split: option.splits)

lemma select_both:
  "select_migrations cfp items =
     (concat (map (\<lambda>(ts, fn, num, ul).
        if ul \<or> \<not> is_stamp ts then [fn]
        else (case map_of cfp ts of
                Some (new_fn, new_num, _) \<Rightarrow> if num = new_num then [new_fn] else [fn]
              | None \<Rightarrow> [])) items),
      concat (map (\<lambda>(ts, fn, num, ul).
        if ul \<or> \<not> is_stamp ts then []
        else (case map_of cfp ts of Some _ \<Rightarrow> [] | None \<Rightarrow> [fn])) items))"
proof (induction items)
  case Nil
  show ?case by simp
next
  case (Cons x items)
  obtain ts fn num ul where x: "x = (ts, fn, num, ul)" by (cases x)
  show ?case
  proof (cases "ul \<or> \<not> is_stamp ts")
    case True
    then show ?thesis unfolding x by (simp add: Cons.IH)
  next
    case False
    show ?thesis
    proof (cases "map_of cfp ts")
      case None
      with False show ?thesis unfolding x by (simp add: Cons.IH)
    next
      case (Some e)
      obtain nf nn nu where e: "e = (nf, nn, nu)" by (cases e)
      from False Some show ?thesis unfolding x e by (simp add: Cons.IH)
    qed
  qed
qed

lemma in_concat_mapI: "y \<in> set xs \<Longrightarrow> x \<in> set (g y) \<Longrightarrow> x \<in> set (concat (map g xs))"
  by auto

lemma select_result_mem:
  assumes "(ts, fn, num, ul) \<in> set items"
  shows "ul \<or> \<not> is_stamp ts \<Longrightarrow> fn \<in> set (fst (select_migrations cfp items))"
    and "\<not> ul \<Longrightarrow> is_stamp ts \<Longrightarrow> map_of cfp ts = Some (new_fn, new_num, new_ul) \<Longrightarrow>
           num = new_num \<Longrightarrow> new_fn \<in> set (fst (select_migrations cfp items))"
    and "\<not> ul \<Longrightarrow> is_stamp ts \<Longrightarrow> map_of cfp ts = Some (new_fn, new_num, new_ul) \<Longrightarrow>
           num \<noteq> new_num \<Longrightarrow> fn \<in> set (fst (select_migrations cfp items))"
    and "\<not> ul \<Longrightarrow> is_stamp ts \<Longrightarrow> map_of cfp ts = None \<Longrightarrow>
           fn \<in> set (snd (select_migrations cfp items))"
  unfolding select_both fst_conv snd_conv
  by (rule in_concat_mapI[OF assms], simp)+

lemma select_result_cases:
  assumes "f \<in> set (fst (select_migrations cfp items))"
  obtains ts num ul where "(ts, f, num, ul) \<in> set items"
      "ul \<or> \<not> is_stamp ts \<or> (\<exists>nf nn nu. map_of cfp ts = Some (nf, nn, nu) \<and> num \<noteq> nn)"
  | ts fn num nu where "(ts, fn, num, False) \<in> set items" "is_stamp ts"
      "map_of cfp ts = Some (f, num, nu)"
proof -
  from assms obtain x where x: "x \<in> set items" and
    f: "f \<in> set ((\<lambda>(ts, fn, num, ul).
        if ul \<or> \<not> is_stamp ts then [fn]
        else (case map_of cfp ts of
                Some (new_fn, new_num, _) \<Rightarrow> if num = new_num then [new_fn] else [fn]
              | None \<Rightarrow> [])) x)"
    unfolding select_both fst_conv set_concat set_map by blast
  obtain ts fn num ul where xe: "x = (ts, fn, num, ul)" by (cases x)
  show thesis
  proof (cases "ul \<or> \<not> is_stamp ts")
    case True
    with f xe have "f = fn" by simp
    with x xe True that(1) show thesis by blast
  next
    case False
    with f xe obtain nf nn nu where m: "map_of cfp ts = Some (nf, nn, nu)"
      by (cases "map_of cfp ts") auto
    show thesis
    proof (cases "num = nn")
      case True
      with f xe False m have "f = nf" by simp
      moreover from x xe False have "(ts, fn, num, False) \<in> set items" by simp
      moreover from False have "is_stamp ts" by simp
      ultimately show thesis using m True that(2) by blast
    next
      case neq: False
      with f xe False m have "f = fn" by simp
      with x xe m neq that(1) show thesis by blast
    qed
  qed
qed

lemma select_removed_cases:
  assumes "f \<in> set (snd (select_migrations cfp items))"
  obtains ts num where "(ts, f, num, False) \<in> set items" "is_stamp ts" "map_of cfp ts = None"
proof -
  from assms obtain x where x: "x \<in> set items" and
    f: "f \<in> set ((\<lambda>(ts, fn, num, ul).
        if ul \<or> \<not> is_stamp ts then []
        else (case map_of cfp ts of Some _ \<Rightarrow> [] | None \<Rightarrow> [fn])) x)"
    unfolding select_both snd_conv set_concat set_map by blast
  obtain ts fn num ul where xe: "x = (ts, fn, num, ul)" by (cases x)
  from f xe have "\<not> ul" "is_stamp ts" "map_of cfp ts = None" "f = fn"
    by (auto split: if_splits option.splits)
  with x xe have "(ts, f, num, False) \<in> set items" by simp
  then show thesis using \<open>is_stamp ts\<close> \<open>map_of cfp ts = None\<close> by (rule that)
qed


lemma keyed_entry_of_name:
  assumes "distinct (map fst files)" "(fn, y) \<in> set files" "(k, fn, e) \<in> set (keyed i files)"
  shows "e = snd y
         \<and> (\<forall>t. fst y = Some t \<longrightarrow> k = Stamp t)
         \<and> (fst y = None \<longrightarrow> \<not> is_stamp k)"
  using assms
proof (induction files arbitrary: i)
  case Nil
  then show ?case by simp
next
  case (Cons f files)
  obtain g z where f: "f = (g, z)" by (cases f)
  show ?case
  proof (cases "g = fn")
    case True
    with Cons.prems f have yz: "y = z"
      by (auto simp: image_iff)
    from Cons.prems f True have "(k, fn, e) \<notin> set (keyed (Suc i) files)"
      using keyed_names by fastforce
    with Cons.prems f True have "k = ts_of i z" "e = snd z"
      by auto
    with yz show ?thesis using ts_of_stamp[of i y] ts_of_fresh[of i y] by auto
  next
    case False
    with Cons.prems f have "(fn, y) \<in> set files" "(k, fn, e) \<in> set (keyed (Suc i) files)"
      "distinct (map fst files)"
      by auto
    then show ?thesis using Cons.IH by blast
  qed
qed

lemma retained_last:
  assumes "map_of R = map_of (rev (keyed 0 ys))"
    and "ys = pre @ (fn, Some t, e) # post"
    and "\<forall>(f, z) \<in> set post. fst z \<noteq> Some t"
  shows "map_of R (Stamp t) = Some (fn, e)"
proof -
  have "Stamp t \<notin> fst ` set (keyed (Suc (length pre)) post)"
    using assms(3) unfolding keyed_stamp_keys by blast
  then show ?thesis
    unfolding assms(1,2)
    by (cases e) (simp add: keyed_append map_of_rev_last del: map_of_append rev_append rev.simps)
qed

lemma retained_fresh:
  assumes "map_of R = map_of (rev (keyed 0 ys))"
    and "ys = pre @ (fn, None, e) # post"
  shows "map_of R (Fresh (length pre)) = Some (fn, e)"
proof -
  have "Fresh (length pre) \<notin> fst ` set (keyed (Suc (length pre)) post)"
    using keyed_fresh_ge by fastforce
  then show ?thesis
    unfolding assms(1,2)
    by (cases e) (simp add: keyed_append map_of_rev_last del: map_of_append rev_append rev.simps)
qed

lemma retained_absent:
  assumes "map_of R = map_of (rev (keyed 0 ys))"
    and "\<forall>(f, z) \<in> set ys. fst z \<noteq> Some t"
  shows "map_of R (Stamp t) = None"
proof -
  have "Stamp t \<notin> fst ` set (keyed 0 ys)"
    using assms(2) unfolding keyed_stamp_keys by blast
  then show ?thesis
    unfolding assms(1) by (simp add: map_of_eq_None_iff)
qed

lemma retained_in_keyed:
  assumes "map_of R = map_of (rev (keyed 0 ys))" "distinct (map fst R)"
  shows "(k, e) \<in> set R \<Longrightarrow> (k, e) \<in> set (keyed 0 ys)"
  unfolding retained_mem[OF assms] by (drule map_of_SomeD) simp

lemma retained_names:
  assumes "get_migrations_in_dir files = Inr R" "(k, fn, e) \<in> set R"
  shows "fn \<in> fst ` set files"
proof -
  from assms(1) obtain ys where ys: "reads files ys" "map_of R = map_of (rev (keyed 0 ys))"
    "distinct (map fst R)" by (rule get_migrations_Inr)
  from retained_in_keyed[OF ys(2,3) assms(2)] have "fn \<in> fst ` set ys" by (rule keyed_names)
  then show ?thesis using reads_names[OF ys(1)] by (metis list.set_map)
qed

text \<open>
  What the directory holds for a file: the entries of the result are those of the files in
  the position to be read last for their key.
\<close>

lemma retained_file:
  assumes rd: "get_migrations_in_dir files = Inr R"
    and fd: "files = pre @ (fn, d) # post"
  shows "\<And>n u. read_migration d = Inr (None, n, u) \<Longrightarrow> (Fresh (length pre), fn, n, u) \<in> set R"
    and "\<And>t n u. read_migration d = Inr (Some (Scalar t), n, u) \<Longrightarrow>
           \<forall>(f, z) \<in> set post. \<forall>n u. read_migration z \<noteq> Inr (Some (Scalar t), n, u) \<Longrightarrow>
           map_of R (Stamp t) = Some (fn, n, u)"
    and "distinct (map fst R)"
proof -
  from rd obtain ys where ys: "reads files ys" and m: "map_of R = map_of (rev (keyed 0 ys))"
    and dR: "distinct (map fst R)" by (rule get_migrations_Inr)
  from ys fd obtain pre' y post' where yd: "ys = pre' @ (fn, y) # post'"
    and l: "length pre' = length pre" and y: "read_fields d = Inr y" and p: "reads post post'"
    using reads_append by blast
  show "distinct (map fst R)" by (rule dR)
  {
    fix n u assume "read_migration d = Inr (None, n, u)"
    with y have "y = (None, n, u)" by (simp add: read_fields_none[symmetric])
    from retained_fresh[OF m yd[unfolded this]] show "(Fresh (length pre), fn, n, u) \<in> set R"
      unfolding l retained_mem_iff[OF dR] .
  }
  {
    fix t n u assume "read_migration d = Inr (Some (Scalar t), n, u)"
      and last: "\<forall>(f, z) \<in> set post. \<forall>n u. read_migration z \<noteq> Inr (Some (Scalar t), n, u)"
    with y have yy: "y = (Some t, n, u)" by (simp add: read_fields_stamp[symmetric])
    from retained_last[OF m yd[unfolded yy] reads_no_stamp[OF p last]]
    show "map_of R (Stamp t) = Some (fn, n, u)" .
  }
qed

lemma retained_entry:
  assumes rd: "get_migrations_in_dir files = Inr R"
    and mem: "(fn, d) \<in> set files"
    and names: "distinct (map fst files)"
    and ent: "(k, fn, e) \<in> set R"
  shows "\<exists>ts. read_migration d = Inr (ts, e)
             \<and> (ts = None \<longrightarrow> \<not> is_stamp k) \<and> (\<forall>t. ts = Some (Scalar t) \<longrightarrow> k = Stamp t)"
proof -
  from rd obtain ys where ys: "reads files ys" and m: "map_of R = map_of (rev (keyed 0 ys))"
    and dR: "distinct (map fst R)" by (rule get_migrations_Inr)
  from mem obtain pre post where fd: "files = pre @ (fn, d) # post" by (meson split_list)
  from ys fd obtain pre' y post' where yd: "ys = pre' @ (fn, y) # post'"
    and y: "read_fields d = Inr y"
    using reads_append by blast
  from ent have ke: "(k, fn, e) \<in> set (keyed 0 ys)" by (rule retained_in_keyed[OF m dR])
  have dn: "distinct (map fst ys)" using names reads_names[OF ys] by simp
  have my: "(fn, y) \<in> set ys" using yd by simp
  from keyed_entry_of_name[OF dn my ke]
  have e: "e = snd y" and s: "\<forall>t. fst y = Some t \<longrightarrow> k = Stamp t"
    and f: "fst y = None \<longrightarrow> \<not> is_stamp k" by simp_all
  obtain a n u where ya: "y = (a, n, u)" by (cases y)
  show ?thesis
  proof (cases a)
    case None
    with y ya have "read_migration d = Inr (None, n, u)" by (simp add: read_fields_none)
    with e f ya None show ?thesis by simp
  next
    case (Some t)
    with y ya have "read_migration d = Inr (Some (Scalar t), n, u)"
      by (simp add: read_fields_stamp)
    with e s ya Some show ?thesis by simp
  qed
qed

lemma retained_no_stamp:
  assumes rd: "get_migrations_in_dir files = Inr R"
    and "\<forall>(f, z) \<in> set files. \<forall>n u. read_migration z \<noteq> Inr (Some (Scalar t), n, u)"
  shows "map_of R (Stamp t) = None"
proof -
  from rd obtain ys where ys: "reads files ys" and m: "map_of R = map_of (rev (keyed 0 ys))"
    by (rule get_migrations_Inr)
  from retained_absent[OF m reads_no_stamp[OF ys assms(2)]] show ?thesis .
qed

lemma set_migration_fns_None:
  "get_migrations_in_dir feedstock = Inr F \<Longrightarrow>
     set_migration_fns feedstock None = Inr (map (\<lambda>(ts, fn, num, ul). fn) F, [])"
  by (simp add: set_migration_fns_def)

lemma set_migration_fns_Some:
  "get_migrations_in_dir feedstock = Inr F \<Longrightarrow> get_migrations_in_dir cfp = Inr C \<Longrightarrow>
     set_migration_fns feedstock (Some cfp) = Inr (select_migrations C F)"
  by (simp add: set_migration_fns_def)

text \<open>
  \<open>set_migration_fns\<close> raises only while it reads the two directories: it returns when
  both are read.
\<close>

lemma set_migration_fns_returns:
  "(\<exists>r. set_migration_fns feedstock cfp_dir = Inr r) \<longleftrightarrow>
     (\<exists>F. get_migrations_in_dir feedstock = Inr F)
     \<and> (\<forall>cfp. cfp_dir = Some cfp \<longrightarrow> (\<exists>C. get_migrations_in_dir cfp = Inr C))"
  by (auto simp: set_migration_fns_def split: sum.splits option.splits)

text \<open>
  What the selection does with a feedstock file that carries the timestamp \<open>t\<close> and is
  the migration its directory holds for \<open>t\<close> (no later file of the listing carries
  \<open>t\<close>), when a file of the shared directory is the migration that directory holds for
  \<open>t\<close>. With \<open>use_local\<close> true the feedstock file is in the migration list; otherwise,
  when the two values of \<open>migration_number\<close> are equal as Python compares them, the
  shared file's path is in the list and the feedstock file's path is not; when they differ,
  the feedstock file is in the list. In no case is the feedstock file removed.
\<close>

lemma select_shared_copy:
  assumes rdF: "get_migrations_in_dir feedstock = Inr F"
    and rdC: "get_migrations_in_dir cfp = Inr C"
    and fd: "feedstock = pre @ (fn, d) # post"
    and last: "\<forall>(f, z) \<in> set post. \<forall>n u. read_migration z \<noteq> Inr (Some (Scalar t), n, u)"
    and cd: "cfp = pre' @ (new_fn, d') # post'"
    and last': "\<forall>(f, z) \<in> set post'. \<forall>n u. read_migration z \<noteq> Inr (Some (Scalar t), n, u)"
    and ts: "read_migration d = Inr (Some (Scalar t), num, ul)"
    and ts': "read_migration d' = Inr (Some (Scalar t), new_num, new_ul)"
    and names: "distinct (map fst feedstock)" and other: "fn \<notin> fst ` set cfp"
  shows "\<exists>fns removed. set_migration_fns feedstock (Some cfp) = Inr (fns, removed)
     \<and> fn \<notin> set removed
     \<and> (if ul then fn \<in> set fns
        else if num = new_num then new_fn \<in> set fns \<and> fn \<notin> set fns
        else fn \<in> set fns)"
proof -
  have sm: "set_migration_fns feedstock (Some cfp) = Inr (select_migrations C F)"
    using rdF rdC by (rule set_migration_fns_Some)
  have dF: "distinct (map fst F)" by (rule retained_file(3)[OF rdF fd])
  have ent: "(Stamp t, fn, num, ul) \<in> set F"
    unfolding retained_mem_iff[OF dF] using ts last by (rule retained_file(2)[OF rdF fd])
  have cent: "map_of C (Stamp t) = Some (new_fn, new_num, new_ul)"
    using ts' last' by (rule retained_file(2)[OF rdC cd])
  have mem: "(fn, d) \<in> set feedstock" using fd by simp
  have uniq: "n = num \<and> u = ul \<and> k = Stamp t" if "(k, fn, n, u) \<in> set F" for k n u
    using retained_entry[OF rdF mem names that] ts by auto
  have not_removed: "fn \<notin> set (snd (select_migrations C F))"
  proof
    assume "fn \<in> set (snd (select_migrations C F))"
    then obtain k n where "(k, fn, n, False) \<in> set F" "map_of C k = None"
      by (rule select_removed_cases)
    with uniq cent show False by fastforce
  qed
  have kept: "fn \<in> set (fst (select_migrations C F))" if "ul"
    using select_result_mem(1)[OF ent] that by simp
  have differ: "fn \<in> set (fst (select_migrations C F))" if "\<not> ul" "num \<noteq> new_num"
    using select_result_mem(3)[OF ent that(1) _ cent that(2)] by simp
  have shared: "new_fn \<in> set (fst (select_migrations C F))" if "\<not> ul" "num = new_num"
    using select_result_mem(2)[OF ent that(1) _ cent that(2)] by simp
  have gone: "fn \<notin> set (fst (select_migrations C F))" if nl: "\<not> ul" and eq: "num = new_num"
  proof
    assume "fn \<in> set (fst (select_migrations C F))"
    then show False
    proof (cases rule: select_result_cases)
      case (1 k n u)
      from uniq[OF 1(1)] have "n = num" "u = ul" "k = Stamp t" by simp_all
      with 1(2) nl eq cent show False by simp
    next
      case (2 k g n nu)
      from 2(3) have "(k, fn, n, nu) \<in> set C" by (rule map_of_SomeD)
      then have "fn \<in> fst ` set cfp" by (rule retained_names[OF rdC])
      with other show False by contradiction
    qed
  qed
  obtain fns removed where sel: "select_migrations C F = (fns, removed)"
    by (cases "select_migrations C F")
  show ?thesis
    unfolding sm sel using not_removed kept differ shared gone unfolding sel by simp
qed

text \<open>
  C4 fails on the code, whose docstring says the same: for a migration of the feedstock
  with the migration number and the timestamp of one of the shared directory, the file name
  of the shared one is used. The file \<open>f/a.yaml\<close> of the feedstock has the
  timestamp \<open>100\<close> and the explicit \<open>migration_number: 1\<close>; the file \<open>s/a.yaml\<close> of
  the shared directory has the timestamp \<open>100\<close> and no \<open>migration_number\<close>, so that
  its migration number is the default, \<open>1\<close>. Timestamp and migration number match, and
  \<open>use_local\<close> is not set, yet the migration list holds the path of the feedstock file:
  the loader gives the explicit number as the string \<open>"1"\<close>, the default is the integer
  \<open>1\<close>, and \<open>num == new_num\<close> is false. The same happens with the two files
  exchanged.
\<close>

theorem set_migration_fns_explicit_number_one:
  "set_migration_fns
     [(''f/a.yaml'', Some (Mapping (fmap_of_list
         [(''migrator_ts'', Scalar ''100''),
          (''__migrator'', Mapping (fmap_of_list [(''migration_number'', Scalar ''1'')]))])))]
     (Some [(''s/a.yaml'', Some (Mapping (fmap_of_list
         [(''migrator_ts'', Scalar ''100'')])))])
   = Inr ([''f/a.yaml''], [])
   \<and> set_migration_fns
     [(''f/a.yaml'', Some (Mapping (fmap_of_list
         [(''migrator_ts'', Scalar ''100'')])))]
     (Some [(''s/a.yaml'', Some (Mapping (fmap_of_list
         [(''migrator_ts'', Scalar ''100''),
          (''__migrator'', Mapping (fmap_of_list [(''migration_number'', Scalar ''1'')]))])))])
   = Inr ([''f/a.yaml''], [])"
  by (simp add: set_migration_fns_def get_migrations_in_dir_def read_migration_def
      or_empty_dict_def fmlookup_of_list lower_char_def)

text \<open>
  When both files give the number explicitly, the shared copy is used.
\<close>

lemma set_migration_fns_both_explicit:
  "set_migration_fns
     [(''f/a.yaml'', Some (Mapping (fmap_of_list
         [(''migrator_ts'', Scalar ''100''),
          (''__migrator'', Mapping (fmap_of_list [(''migration_number'', Scalar ''1'')]))])))]
     (Some [(''s/a.yaml'', Some (Mapping (fmap_of_list
         [(''migrator_ts'', Scalar ''100''),
          (''__migrator'', Mapping (fmap_of_list [(''migration_number'', Scalar ''1'')]))])))])
   = Inr ([''s/a.yaml''], [])"
  by (simp add: set_migration_fns_def get_migrations_in_dir_def read_migration_def
      or_empty_dict_def fmlookup_of_list lower_char_def)

text \<open>
  The shared directory holds two files with the timestamp \<open>100\<close>, with the migration
  numbers \<open>1\<close> and \<open>2\<close>; only the last one is the migration the directory holds for
  the timestamp (see C10), so the feedstock file with the number \<open>1\<close> is kept although
  the shared file \<open>s/a.yaml\<close> has its timestamp and its number.
\<close>

lemma set_migration_fns_shared_duplicate:
  "set_migration_fns
     [(''f/a.yaml'', Some (Mapping (fmap_of_list
         [(''migrator_ts'', Scalar ''100''),
          (''__migrator'', Mapping (fmap_of_list [(''migration_number'', Scalar ''1'')]))])))]
     (Some [(''s/a.yaml'', Some (Mapping (fmap_of_list
         [(''migrator_ts'', Scalar ''100''),
          (''__migrator'', Mapping (fmap_of_list [(''migration_number'', Scalar ''1'')]))]))),
            (''s/b.yaml'', Some (Mapping (fmap_of_list
         [(''migrator_ts'', Scalar ''100''),
          (''__migrator'', Mapping (fmap_of_list [(''migration_number'', Scalar ''2'')]))])))])
   = Inr ([''f/a.yaml''], [])"
  by (simp add: set_migration_fns_def get_migrations_in_dir_def read_migration_def
      or_empty_dict_def fmlookup_of_list lower_char_def)

text \<open>
  C5, as the code has it. Directory listings hold each path once, and both directories are
  read without an exception. A feedstock migration file without a \<open>migrator_ts\<close> is in
  the migration list and is not removed, whether the shared directory exists or not. A
  feedstock migration file that is the migration its directory holds for its timestamp
  \<open>t\<close>, when the shared directory exists and none of its files carries \<open>t\<close>: with
  \<open>use_local\<close> true it is in the list and is not removed; otherwise it is removed and is
  not in the list. When the shared directory does not exist nothing is removed.
\<close>

theorem set_migration_fns_expiry:
  assumes fd: "feedstock = pre @ (fn, d) # post"
    and names: "distinct (map fst feedstock)"
    and rdF: "get_migrations_in_dir feedstock = Inr F"
    and rdC: "\<forall>cfp. cfp_dir = Some cfp \<longrightarrow> (\<exists>C. get_migrations_in_dir cfp = Inr C)"
  shows "\<exists>fns removed. set_migration_fns feedstock cfp_dir = Inr (fns, removed)
     \<and> (\<forall>n u. read_migration d = Inr (None, n, u) \<longrightarrow> fn \<in> set fns \<and> fn \<notin> set removed)
     \<and> (\<forall>t n u cfp. read_migration d = Inr (Some (Scalar t), n, u)
            \<and> (\<forall>(f, z) \<in> set post. \<forall>n u. read_migration z \<noteq> Inr (Some (Scalar t), n, u))
            \<and> cfp_dir = Some cfp
            \<and> (\<forall>(f, z) \<in> set cfp. \<forall>n u. read_migration z \<noteq> Inr (Some (Scalar t), n, u))
            \<and> fn \<notin> fst ` set cfp \<longrightarrow>
          (if u then fn \<in> set fns \<and> fn \<notin> set removed
           else fn \<in> set removed \<and> fn \<notin> set fns))
     \<and> (cfp_dir = None \<longrightarrow> removed = [])"
proof (cases cfp_dir)
  case None
  have sm: "set_migration_fns feedstock cfp_dir = Inr (map (\<lambda>(ts, fn, num, ul). fn) F, [])"
    unfolding None using rdF by (rule set_migration_fns_None)
  have "fn \<in> set (map (\<lambda>(ts, fn, num, ul). fn) F)" if "read_migration d = Inr (None, n, u)" for n u
    using retained_file(1)[OF rdF fd that] by force
  with sm None show ?thesis by auto
next
  case (Some cfp)
  with rdC obtain C where rdC': "get_migrations_in_dir cfp = Inr C" by blast
  have sm: "set_migration_fns feedstock cfp_dir = Inr (select_migrations C F)"
    unfolding Some using rdF rdC' by (rule set_migration_fns_Some)
  obtain fns removed where sel: "select_migrations C F = (fns, removed)"
    by (cases "select_migrations C F")
  have dF: "distinct (map fst F)" by (rule retained_file(3)[OF rdF fd])
  have mem: "(fn, d) \<in> set feedstock" using fd by simp
  note uniq = retained_entry[OF rdF mem names]
  have a: "fn \<in> set fns \<and> fn \<notin> set removed" if none: "read_migration d = Inr (None, n, u)" for n u
  proof
    from retained_file(1)[OF rdF fd none] have ent: "(Fresh (length pre), fn, n, u) \<in> set F" .
    from select_result_mem(1)[OF ent, of C] show "fn \<in> set fns" by (simp add: sel)
    show "fn \<notin> set removed"
    proof
      assume "fn \<in> set removed"
      then have "fn \<in> set (snd (select_migrations C F))" by (simp add: sel)
      then obtain k m where "(k, fn, m, False) \<in> set F" "is_stamp k"
        by (rule select_removed_cases)
      with uniq[of k "(m, False)"] none show False by auto
    qed
  qed
  have b: "if u then fn \<in> set fns \<and> fn \<notin> set removed else fn \<in> set removed \<and> fn \<notin> set fns"
    if ts: "read_migration d = Inr (Some (Scalar t), n, u)"
      and last: "\<forall>(f, z) \<in> set post. \<forall>n u. read_migration z \<noteq> Inr (Some (Scalar t), n, u)"
      and absent: "\<forall>(f, z) \<in> set cfp. \<forall>n u. read_migration z \<noteq> Inr (Some (Scalar t), n, u)"
      and other: "fn \<notin> fst ` set cfp" for t n u
  proof -
    have ent: "(Stamp t, fn, n, u) \<in> set F"
      unfolding retained_mem_iff[OF dF] using ts last by (rule retained_file(2)[OF rdF fd])
    have cent: "map_of C (Stamp t) = None"
      using rdC' absent by (rule retained_no_stamp)
    have r1: "fn \<notin> set (snd (select_migrations C F))" if "u"
    proof
      assume "fn \<in> set (snd (select_migrations C F))"
      then obtain k m where "(k, fn, m, False) \<in> set F"
        by (rule select_removed_cases)
      with uniq[of k "(m, False)"] ts that show False by auto
    qed
    have r2: "fn \<notin> set (fst (select_migrations C F))" if nl: "\<not> u"
    proof
      assume "fn \<in> set (fst (select_migrations C F))"
      then show False
      proof (cases rule: select_result_cases)
        case (1 k m v)
        from uniq[OF 1(1)] ts have "v = u" "k = Stamp t" by auto
        with 1(2) nl cent show False by simp
      next
        case (2 k g m nu)
        from 2(3) have "(k, fn, m, nu) \<in> set C" by (rule map_of_SomeD)
        then have "fn \<in> fst ` set cfp" by (rule retained_names[OF rdC'])
        with other show False by contradiction
      qed
    qed
    show ?thesis
      using select_result_mem(1)[OF ent, of C] select_result_mem(4)[OF ent _ _ cent] r1 r2
      by (simp add: sel)
  qed
  show ?thesis
    unfolding sm sel using a b Some by auto
qed

theorem set_migration_fns_expiry_witness:
  "set_migration_fns
       [(''f/a.yaml'', Some (Mapping (fmap_of_list
           [(''migrator_ts'', Scalar ''100''),
            (''__migrator'', Mapping (fmap_of_list [(''migration_number'', Scalar ''1'')]))]))),
        (''f/n.yaml'', Some (Mapping (fmap_of_list [(''python'', Seq [Scalar ''3.9''])])))]
       (Some [])
     = Inr ([''f/n.yaml''], [''f/a.yaml''])
   \<and> (\<exists>fns removed. set_migration_fns
       [(''f/a.yaml'', Some (Mapping (fmap_of_list
           [(''migrator_ts'', Scalar ''100''),
            (''__migrator'', Mapping (fmap_of_list [(''migration_number'', Scalar ''1'')]))]))),
        (''f/n.yaml'', Some (Mapping (fmap_of_list [(''python'', Seq [Scalar ''3.9''])])))]
       (Some [])
     = Inr (fns, removed)
       \<and> ''f/n.yaml'' \<in> set fns \<and> ''f/n.yaml'' \<notin> set removed
       \<and> ''f/a.yaml'' \<in> set removed \<and> ''f/a.yaml'' \<notin> set fns)"
  using set_migration_fns_expiry[of
      "[(''f/a.yaml'', Some (Mapping (fmap_of_list
           [(''migrator_ts'', Scalar ''100''),
            (''__migrator'', Mapping (fmap_of_list [(''migration_number'', Scalar ''1'')]))]))),
        (''f/n.yaml'', Some (Mapping (fmap_of_list [(''python'', Seq [Scalar ''3.9''])])))]"
      "[(''f/a.yaml'', Some (Mapping (fmap_of_list
           [(''migrator_ts'', Scalar ''100''),
            (''__migrator'', Mapping (fmap_of_list [(''migration_number'', Scalar ''1'')]))])))]"
      "''f/n.yaml''" "Some (Mapping (fmap_of_list [(''python'', Seq [Scalar ''3.9''])]))" "[]"
      "[(Stamp ''100'', ''f/a.yaml'', Loaded (Scalar ''1''), False),
        (Fresh 1, ''f/n.yaml'', PyInt 1, False)]" "Some []"]
    set_migration_fns_expiry[of
      "[(''f/a.yaml'', Some (Mapping (fmap_of_list
           [(''migrator_ts'', Scalar ''100''),
            (''__migrator'', Mapping (fmap_of_list [(''migration_number'', Scalar ''1'')]))]))),
        (''f/n.yaml'', Some (Mapping (fmap_of_list [(''python'', Seq [Scalar ''3.9''])])))]"
      "[]" "''f/a.yaml''"
      "Some (Mapping (fmap_of_list
           [(''migrator_ts'', Scalar ''100''),
            (''__migrator'', Mapping (fmap_of_list [(''migration_number'', Scalar ''1'')]))]))"
      "[(''f/n.yaml'', Some (Mapping (fmap_of_list [(''python'', Seq [Scalar ''3.9''])])))]"
      "[(Stamp ''100'', ''f/a.yaml'', Loaded (Scalar ''1''), False),
        (Fresh 1, ''f/n.yaml'', PyInt 1, False)]" "Some []"]
  by (simp add: set_migration_fns_def get_migrations_in_dir_def read_migration_def
      or_empty_dict_def fmlookup_of_list lower_char_def)

text \<open>
  C5 as the specification states it fails: the feedstock file \<open>f/a.yaml\<close> has the
  timestamp \<open>100\<close>, which no file of the (empty) shared directory carries, and
  \<open>use_local: True\<close>; it is kept in the migration list and is not removed.
\<close>

theorem set_migration_fns_keeps_use_local:
  "set_migration_fns
     [(''f/a.yaml'', Some (Mapping (fmap_of_list
         [(''migrator_ts'', Scalar ''100''),
          (''__migrator'', Mapping (fmap_of_list
             [(''migration_number'', Scalar ''1''), (''use_local'', Scalar ''True'')]))])))]
     (Some [])
   = Inr ([''f/a.yaml''], [])"
  by (simp add: set_migration_fns_def get_migrations_in_dir_def read_migration_def
      or_empty_dict_def fmlookup_of_list lower_char_def)

text \<open>
  C10. When \<open>get_migrations_in_dir\<close> returns, the mapping it returns has one entry for
  each key, and the key of a file with a timestamp is the timestamp alone. When two files
  of one directory carry the timestamp \<open>t\<close>, the entry for \<open>t\<close> is that of the last
  file of the listing that carries it, and the earlier file is in no entry: as a feedstock
  file it is neither in the migration list nor removed, as a shared file its path is never
  put into the list.
\<close>

theorem get_migrations_in_dir_keeps_last_per_timestamp:
  assumes fd: "files = pre @ (fn1, d1) # mid @ (fn2, d2) # post"
    and ts1: "read_migration d1 = Inr (Some (Scalar t), n1, u1)"
    and ts2: "read_migration d2 = Inr (Some (Scalar t), n2, u2)"
    and last: "\<forall>(f, z) \<in> set post. \<forall>n u. read_migration z \<noteq> Inr (Some (Scalar t), n, u)"
    and names: "distinct (map fst files)"
    and rd: "get_migrations_in_dir files = Inr R"
  shows "map_of R (Stamp t) = Some (fn2, n2, u2)
     \<and> distinct (map fst R)
     \<and> fn1 \<notin> (\<lambda>(k, f, n, u). f) ` set R
     \<and> (\<exists>fns. set_migration_fns files None = Inr (fns, []) \<and> fn1 \<notin> set fns)
     \<and> (\<forall>cfp C. fn1 \<notin> fst ` set cfp \<and> get_migrations_in_dir cfp = Inr C \<longrightarrow>
           (\<exists>fns removed. set_migration_fns files (Some cfp) = Inr (fns, removed)
              \<and> fn1 \<notin> set fns \<and> fn1 \<notin> set removed))
     \<and> (\<forall>feedstock F. fn1 \<notin> fst ` set feedstock \<and> get_migrations_in_dir feedstock = Inr F \<longrightarrow>
           (\<exists>fns removed. set_migration_fns feedstock (Some files) = Inr (fns, removed)
              \<and> fn1 \<notin> set fns))"
proof -
  have fd': "files = (pre @ (fn1, d1) # mid) @ (fn2, d2) # post" using fd by simp
  have r: "map_of R (Stamp t) = Some (fn2, n2, u2)"
    using ts2 last by (rule retained_file(2)[OF rd fd'])
  have dR: "distinct (map fst R)" by (rule retained_file(3)[OF rd fd'])
  have mem: "(fn1, d1) \<in> set files" using fd by simp
  have neq: "fn1 \<noteq> fn2" using names unfolding fd by auto
  have nr: False if "(k, fn1, e) \<in> set R" for k e
  proof -
    from retained_entry[OF rd mem names that] ts1 have "k = Stamp t" by auto
    with that r neq show False by (simp add: retained_mem_iff[OF dR])
  qed
  then have not_ret: "fn1 \<notin> (\<lambda>(k, f, n, u). f) ` set R" by auto
  have a: "\<exists>fns. set_migration_fns files None = Inr (fns, []) \<and> fn1 \<notin> set fns"
    unfolding set_migration_fns_None[OF rd] using not_ret by simp
  have b: "\<exists>fns removed. set_migration_fns files (Some cfp) = Inr (fns, removed)
              \<and> fn1 \<notin> set fns \<and> fn1 \<notin> set removed"
    if o: "fn1 \<notin> fst ` set cfp" and rdC: "get_migrations_in_dir cfp = Inr C" for cfp C
  proof -
    have 1: "fn1 \<notin> set (fst (select_migrations C R))"
    proof
      assume "fn1 \<in> set (fst (select_migrations C R))"
      then show False
      proof (cases rule: select_result_cases)
        case (1 k n u)
        then show False using nr by blast
      next
        case (2 k g n nu)
        from 2(3) have "(k, fn1, n, nu) \<in> set C" by (rule map_of_SomeD)
        then have "fn1 \<in> fst ` set cfp" by (rule retained_names[OF rdC])
        with o show False by contradiction
      qed
    qed
    have 2: "fn1 \<notin> set (snd (select_migrations C R))"
    proof
      assume "fn1 \<in> set (snd (select_migrations C R))"
      then obtain k n where "(k, fn1, n, False) \<in> set R"
        by (rule select_removed_cases)
      then show False using nr by blast
    qed
    obtain fns removed where sel: "select_migrations C R = (fns, removed)"
      by (cases "select_migrations C R")
    show ?thesis
      unfolding set_migration_fns_Some[OF rd rdC] sel using 1 2 by (simp add: sel)
  qed
  have c: "\<exists>fns removed. set_migration_fns feedstock (Some files) = Inr (fns, removed)
              \<and> fn1 \<notin> set fns"
    if o: "fn1 \<notin> fst ` set feedstock" and rdF: "get_migrations_in_dir feedstock = Inr F"
    for feedstock F
  proof -
    have 1: "fn1 \<notin> set (fst (select_migrations R F))"
    proof
      assume "fn1 \<in> set (fst (select_migrations R F))"
      then show False
      proof (cases rule: select_result_cases)
        case (1 k n u)
        from 1(1) have "fn1 \<in> fst ` set feedstock" by (rule retained_names[OF rdF])
        with o show False by contradiction
      next
        case (2 k g n nu)
        from 2(3) have "(k, fn1, n, nu) \<in> set R" by (rule map_of_SomeD)
        then show False using nr by blast
      qed
    qed
    obtain fns removed where sel: "select_migrations R F = (fns, removed)"
      by (cases "select_migrations R F")
    show ?thesis
      unfolding set_migration_fns_Some[OF rdF rd] sel using 1 by (simp add: sel)
  qed
  show ?thesis using r dR not_ret a b c by blast
qed

theorem get_migrations_in_dir_keeps_last_per_timestamp_witness:
  "get_migrations_in_dir
     [(''f/a.yaml'', Some (Mapping (fmap_of_list
         [(''migrator_ts'', Scalar ''100''),
          (''__migrator'', Mapping (fmap_of_list [(''migration_number'', Scalar ''1'')]))]))),
      (''f/b.yaml'', Some (Mapping (fmap_of_list
         [(''migrator_ts'', Scalar ''100''),
          (''__migrator'', Mapping (fmap_of_list [(''migration_number'', Scalar ''2'')]))])))]
     = Inr [(Stamp ''100'', ''f/b.yaml'', Loaded (Scalar ''2''), False)]
   \<and> map_of [(Stamp ''100'', ''f/b.yaml'', Loaded (Scalar ''2''), False)] (Stamp ''100'')
     = Some (''f/b.yaml'', Loaded (Scalar ''2''), False)
   \<and> (\<exists>fns. set_migration_fns
         [(''f/a.yaml'', Some (Mapping (fmap_of_list
             [(''migrator_ts'', Scalar ''100''),
              (''__migrator'', Mapping (fmap_of_list [(''migration_number'', Scalar ''1'')]))]))),
          (''f/b.yaml'', Some (Mapping (fmap_of_list
             [(''migrator_ts'', Scalar ''100''),
              (''__migrator'', Mapping (fmap_of_list [(''migration_number'', Scalar ''2'')]))])))]
         None = Inr (fns, []) \<and> ''f/a.yaml'' \<notin> set fns)"
  using get_migrations_in_dir_keeps_last_per_timestamp[of
      "[(''f/a.yaml'', Some (Mapping (fmap_of_list
         [(''migrator_ts'', Scalar ''100''),
          (''__migrator'', Mapping (fmap_of_list [(''migration_number'', Scalar ''1'')]))]))),
      (''f/b.yaml'', Some (Mapping (fmap_of_list
         [(''migrator_ts'', Scalar ''100''),
          (''__migrator'', Mapping (fmap_of_list [(''migration_number'', Scalar ''2'')]))])))]"
      "[]" "''f/a.yaml''"
      "Some (Mapping (fmap_of_list
         [(''migrator_ts'', Scalar ''100''),
          (''__migrator'', Mapping (fmap_of_list [(''migration_number'', Scalar ''1'')]))]))"
      "[]" "''f/b.yaml''"
      "Some (Mapping (fmap_of_list
         [(''migrator_ts'', Scalar ''100''),
          (''__migrator'', Mapping (fmap_of_list [(''migration_number'', Scalar ''2'')]))]))"
      "[]" "''100''" "Loaded (Scalar ''1'')" False "Loaded (Scalar ''2'')" False
      "[(Stamp ''100'', ''f/b.yaml'', Loaded (Scalar ''2''), False)]"]
  by (simp add: set_migration_fns_def get_migrations_in_dir_def read_migration_def
      or_empty_dict_def fmlookup_of_list lower_char_def)

lemma sort_keys_map:
  assumes "\<forall>fn \<in> set ms. fst (parse fn) = Some (ts fn)"
  shows "sort_keys (map (\<lambda>fn. (fn, parse fn)) ms)
           = Inr (map (\<lambda>fn. ((ts fn, fn), snd (parse fn))) ms)"
  using assms
proof (induction ms)
  case Nil
  show ?case by simp
next
  case (Cons m ms)
  obtain b where "parse m = (Some (ts m), b)"
    using Cons.prems by (cases "parse m") auto
  then show ?case using Cons by simp
qed

lemma sort_keys_missing:
  assumes "\<exists>fn \<in> set ms. fst (parse fn) = None"
  shows "sort_keys (map (\<lambda>fn. (fn, parse fn)) ms) = Inl KeyError"
  using assms
proof (induction ms)
  case Nil
  then show ?case by simp
next
  case (Cons m ms)
  show ?case
  proof (cases "parse m")
    case (Pair t b)
    show ?thesis
    proof (cases t)
      case None
      with Pair show ?thesis by simp
    next
      case (Some a)
      with Pair Cons.prems have "\<exists>fn \<in> set ms. fst (parse fn) = None" by auto
      then have "sort_keys (map (\<lambda>fn. (fn, parse fn)) ms) = Inl KeyError" by (rule Cons.IH)
      with Pair Some show ?thesis by simp
    qed
  qed
qed

lemma sort_key_map_inj:
  assumes "mset order = mset ms" and "sorted (map (\<lambda>x. f (g x)) order)" and "inj_on f (g ` set ms)"
    and "inj_on g (set ms)"
  shows "sort_key f (map g ms) = map g order"
proof (rule sort_key_inj_key_eq)
  show "mset (map g ms) = mset (map g order)" using assms(1) by simp
  show "inj_on f (set (map g ms))" using assms(3) by simp
  show "sorted (map f (map g order))" using assms(2) by (simp add: comp_def)
qed

text \<open>
  The order of the sort keys: by timestamp first, by file name among equal timestamps.
\<close>

lemma sort_key_order:
  "((t::'t::linorder, fn::string) \<le> (t', fn')) \<longleftrightarrow> t < t' \<or> (t = t' \<and> fn \<le> fn')"
  by auto

lemma ascending_order_exists:
  "mset (sort_key (\<lambda>fn. (ts fn :: 't::linorder, fn :: string)) migrations) = mset migrations
   \<and> sorted (map (\<lambda>fn. (ts fn, fn)) (sort_key (\<lambda>fn. (ts fn, fn)) migrations))"
  by simp

text \<open>
  C3. When every migration file has a \<open>migrator_ts\<close> (the sort raises \<open>KeyError\<close>
  otherwise), the result of \<open>migrate_combined_spec\<close> is that of applying the migrations
  one after the other, from the combined spec on, in the arrangement of the file names that
  is ascending in (timestamp, file name): equal timestamps are ordered by file name. The
  result therefore does not depend on the order in which the files are given.
\<close>

theorem migrate_combined_spec_ascending:
  assumes stamps: "\<forall>fn \<in> set migrations. fst (parse fn) = Some (ts fn)"
    and perm: "mset order = mset migrations"
    and asc: "sorted (map (\<lambda>fn. (ts fn, fn)) order)"
  shows "migrate_combined_spec variant_add parse spec migrations
           = Inr (foldl (apply_migration variant_add) spec (map (\<lambda>fn. snd (parse fn)) order))
       \<and> migrate_combined_spec variant_add parse spec order
           = migrate_combined_spec variant_add parse spec migrations"
proof -
  let ?g = "\<lambda>fn. ((ts fn, fn), snd (parse fn))"
  have inj: "inj_on fst (?g ` set ms)" "inj_on ?g (set ms)" for ms :: "string list"
    by (auto simp: inj_on_def)
  have res: "migrate_combined_spec variant_add parse spec ms
           = Inr (foldl (apply_migration variant_add) spec (map (\<lambda>fn. snd (parse fn)) order))"
    if "mset order = mset ms" for ms
  proof -
    have "set ms = set migrations" using that perm by (metis mset_eq_setD)
    with stamps have st: "\<forall>fn \<in> set ms. fst (parse fn) = Some (ts fn)" by simp
    have "sort_key fst (map ?g ms) = map ?g order"
      using that asc inj by (intro sort_key_map_inj) simp_all
    then show ?thesis
      by (simp add: migrate_combined_spec_def sort_keys_map[OF st] comp_def)
  qed
  show ?thesis using res[OF perm] res[OF refl] by simp
qed

theorem migrate_combined_spec_ascending_witness:
  "migrate_combined_spec (\<lambda>s b. s @ b) (\<lambda>fn. (Some (if fn = ''c.yaml'' then 3 else if fn = ''b.yaml'' then 2 else (1::int)), [(''pin'', fn)])) []
       [''c.yaml'', ''a.yaml'', ''b.yaml'', ''d.yaml'']
     = Inr [(''pin'', ''a.yaml''), (''pin'', ''d.yaml''), (''pin'', ''b.yaml''),
            (''pin'', ''c.yaml'')]
   \<and> migrate_combined_spec (\<lambda>s b. s @ b) (\<lambda>fn. (Some (if fn = ''c.yaml'' then 3 else if fn = ''b.yaml'' then 2 else (1::int)), [(''pin'', fn)])) []
       [''a.yaml'', ''d.yaml'', ''b.yaml'', ''c.yaml'']
     = migrate_combined_spec (\<lambda>s b. s @ b) (\<lambda>fn. (Some (if fn = ''c.yaml'' then 3 else if fn = ''b.yaml'' then 2 else (1::int)), [(''pin'', fn)])) []
       [''c.yaml'', ''a.yaml'', ''b.yaml'', ''d.yaml'']"
  using migrate_combined_spec_ascending[of "[''c.yaml'', ''a.yaml'', ''b.yaml'', ''d.yaml'']"
      "(\<lambda>fn. (Some (if fn = ''c.yaml'' then 3 else if fn = ''b.yaml'' then 2 else (1::int)), [(''pin'', fn)]))" "(\<lambda>fn. if fn = ''c.yaml'' then 3 else if fn = ''b.yaml'' then 2 else (1::int))" "[''a.yaml'', ''d.yaml'', ''b.yaml'', ''c.yaml'']" "\<lambda>s b. s @ b" "[]"]
  by (simp add: apply_migration_def less_eq_char_def)

section \<open>Trimming zip groups: results\<close>

lemma trim_groups_total:
  assumes "\<forall>p. map_of d ''zip_keys'' = Some (Pins p) \<longrightarrow> p = []"
  shows "\<exists>groups. trim_groups d = Inr groups"
  using assms
  by (auto simp: trim_groups_def split: option.splits val.splits list.splits)

lemma used_groups_members:
  assumes "g \<in> set (used_groups d groups)"
  shows "2 \<le> length g" and "\<forall>k \<in> set g. map_of d k \<noteq> None"
    and "\<exists>group \<in> set groups. g = filter (\<lambda>k. map_of d k \<noteq> None) group"
  using assms by (auto simp: used_groups_def)

lemma used_groups_empty_iff:
  "used_groups d groups = [] \<longleftrightarrow>
     (\<forall>group \<in> set groups. length (filter (\<lambda>k. map_of d k \<noteq> None) group) < 2)"
  by (auto simp: used_groups_def filter_empty_conv not_less)

text \<open>
  C6. \<open>_trim_unused_zip_keys\<close> returns (the one value of \<open>zip_keys\<close> it fails on is a
  non-empty dict). Afterwards, if the mapping has the key \<open>zip_keys\<close>, its value is a
  non-empty list of groups; each of them has at least 2 members, each member is a key of
  the mapping, and the group is a group of the input restricted to the keys of the mapping.
  The key \<open>zip_keys\<close> is absent afterwards exactly when no group of the input has 2
  members that are keys of the mapping. No other key changes.
\<close>

theorem trim_unused_zip_keys_groups:
  assumes "\<forall>p. map_of d ''zip_keys'' = Some (Pins p) \<longrightarrow> p = []"
  shows "\<exists>d' groups. trim_unused_zip_keys d = Inr d' \<and> trim_groups d = Inr groups
     \<and> (\<forall>v. map_of d' ''zip_keys'' = Some v \<longrightarrow>
          (\<exists>gs. v = Groups gs \<and> gs \<noteq> []
             \<and> (\<forall>g \<in> set gs. 2 \<le> length g \<and> (\<forall>k \<in> set g. map_of d' k \<noteq> None)
                  \<and> (\<exists>group \<in> set groups. g = filter (\<lambda>k. map_of d k \<noteq> None) group))))
     \<and> (map_of d' ''zip_keys'' = None \<longleftrightarrow>
          (\<forall>group \<in> set groups. length (filter (\<lambda>k. map_of d k \<noteq> None) group) < 2))
     \<and> (\<forall>k. k \<noteq> ''zip_keys'' \<longrightarrow> map_of d' k = map_of d k)"
proof -
  from trim_groups_total[OF assms] obtain groups where g: "trim_groups d = Inr groups" ..
  show ?thesis
  proof (cases "used_groups d groups = []")
    case True
    let ?d' = "AList.delete ''zip_keys'' d"
    have t: "trim_unused_zip_keys d = Inr ?d' \<or> (trim_unused_zip_keys d = Inr d \<and> map_of d ''zip_keys'' = None)"
      using g True by (simp add: trim_unused_zip_keys_def)
    have m: "map_of ?d' = (map_of d)(''zip_keys'' := None)"
      by (rule ext) (simp add: delete_conv)
    from t show ?thesis
    proof
      assume "trim_unused_zip_keys d = Inr ?d'"
      then show ?thesis
        using g True m by (intro exI[of _ ?d'] exI[of _ groups]) (simp add: used_groups_empty_iff)
    next
      assume "trim_unused_zip_keys d = Inr d \<and> map_of d ''zip_keys'' = None"
      then show ?thesis
        using g True by (intro exI[of _ d] exI[of _ groups]) (simp add: used_groups_empty_iff)
    qed
  next
    case False
    let ?d' = "AList.update ''zip_keys'' (Groups (used_groups d groups)) d"
    have t: "trim_unused_zip_keys d = Inr ?d'"
      using g False by (simp add: trim_unused_zip_keys_def)
    have m: "map_of ?d' = (map_of d)(''zip_keys'' \<mapsto> Groups (used_groups d groups))"
      by (rule update_conv')
    have keys: "map_of ?d' k \<noteq> None" if "map_of d k \<noteq> None" for k
      using that by (simp add: m)
    have ne: "\<not> (\<forall>group \<in> set groups. length (filter (\<lambda>k. map_of d k \<noteq> None) group) < 2)"
      using False by (simp add: used_groups_empty_iff)
    show ?thesis
    proof (rule exI[of _ ?d'], rule exI[of _ groups], intro conjI allI impI)
      show "trim_unused_zip_keys d = Inr ?d'" by (rule t)
      show "trim_groups d = Inr groups" by (rule g)
      show "\<exists>gs. v = Groups gs \<and> gs \<noteq> []
             \<and> (\<forall>g \<in> set gs. 2 \<le> length g \<and> (\<forall>k \<in> set g. map_of ?d' k \<noteq> None)
                  \<and> (\<exists>group \<in> set groups. g = filter (\<lambda>k. map_of d k \<noteq> None) group))"
        if "map_of ?d' ''zip_keys'' = Some v" for v
      proof -
        from that have v: "v = Groups (used_groups d groups)" by (simp add: m)
        show ?thesis
          unfolding v using False used_groups_members[of _ d groups] keys
          by (intro exI[of _ "used_groups d groups"]) blast
      qed
      show "map_of ?d' ''zip_keys'' = None \<longleftrightarrow>
          (\<forall>group \<in> set groups. length (filter (\<lambda>k. map_of d k \<noteq> None) group) < 2)"
        using ne by (simp add: m)
      show "map_of ?d' k = map_of d k" if "k \<noteq> ''zip_keys''" for k
        using that by (simp add: m)
    qed
  qed
qed

theorem trim_unused_zip_keys_groups_witness:
  "trim_unused_zip_keys
     [(''python'', Strs [''3.9'', ''3.10'']), (''numpy'', Strs [''1.21'', ''1.23'']),
      (''c_compiler'', Strs [''gcc'']),
      (''zip_keys'', Groups [[''python'', ''numpy'', ''python_impl''],
                             [''c_compiler'', ''cxx_compiler'']])]
   = Inr [(''python'', Strs [''3.9'', ''3.10'']), (''numpy'', Strs [''1.21'', ''1.23'']),
          (''c_compiler'', Strs [''gcc'']), (''zip_keys'', Groups [[''python'', ''numpy'']])]
   \<and> trim_unused_zip_keys [(''c_compiler'', Strs [''gcc'']), (''zip_keys'', Groups [[''c_compiler'', ''cxx_compiler'']])] = Inr [(''c_compiler'', Strs [''gcc''])]"
  using trim_unused_zip_keys_groups[of "[(''python'', Strs [''3.9'', ''3.10'']), (''numpy'', Strs [''1.21'', ''1.23'']), (''c_compiler'', Strs [''gcc'']), (''zip_keys'', Groups [[''python'', ''numpy'', ''python_impl''], [''c_compiler'', ''cxx_compiler'']])]"]
    trim_unused_zip_keys_groups[of "[(''c_compiler'', Strs [''gcc'']), (''zip_keys'', Groups [[''c_compiler'', ''cxx_compiler'']])]"]
  by (simp add: trim_unused_zip_keys_def trim_groups_def used_groups_def)

section \<open>Fallback values: results\<close>

lemma first_elem_idem: "first_elem v = Inr w \<Longrightarrow> first_elem w = Inr w"
  by (cases v rule: first_elem.cases) auto

lemma truncated_on_refl: "truncated_on {} c c"
  by (simp add: truncated_on_def)

lemma truncated_on_trans:
  assumes "truncated_on K c c1" "truncated_on K' c1 c2"
  shows "truncated_on (K \<union> K') c c2"
  unfolding truncated_on_def
proof
  fix k
  from assms(1) have a: "if k \<in> K
          then (\<exists>v w. map_of c k = Some v \<and> first_elem v = Inr w \<and> map_of c1 k = Some w)
          else map_of c1 k = map_of c k"
    unfolding truncated_on_def by blast
  from assms(2) have b: "if k \<in> K'
          then (\<exists>v w. map_of c1 k = Some v \<and> first_elem v = Inr w \<and> map_of c2 k = Some w)
          else map_of c2 k = map_of c1 k"
    unfolding truncated_on_def by blast
  show "if k \<in> K \<union> K'
          then (\<exists>v w. map_of c k = Some v \<and> first_elem v = Inr w \<and> map_of c2 k = Some w)
          else map_of c2 k = map_of c k"
  proof (cases "k \<in> K")
    case True
    with a obtain v w where v: "map_of c k = Some v" "first_elem v = Inr w" "map_of c1 k = Some w"
      by auto
    show ?thesis
    proof (cases "k \<in> K'")
      case True
      with b v obtain w' where "first_elem w = Inr w'" "map_of c2 k = Some w'" by auto
      with first_elem_idem[OF v(2)] v \<open>k \<in> K\<close> show ?thesis by auto
    next
      case False
      with b v \<open>k \<in> K\<close> show ?thesis by auto
    qed
  next
    case False
    with a b show ?thesis by (cases "k \<in> K'") auto
  qed
qed

lemma truncated_on_update:
  assumes "map_of c key = Some v" "first_elem v = Inr w"
  shows "truncated_on {key} c (AList.update key w c)"
  using assms by (simp add: truncated_on_def update_conv')

lemma truncate_keys_spec:
  assumes "truncate_keys keys c = Inr c'"
  shows "truncated_on (set keys - {''docker_image''}) c c' \<and> map fst c' = map fst c"
  using assms
proof (induction keys arbitrary: c)
  case Nil
  then show ?case by (simp add: truncated_on_refl)
next
  case (Cons key keys)
  show ?case
  proof (cases "key = ''docker_image''")
    case True
    with Cons.prems have "truncate_keys keys c = Inr c'" by simp
    from Cons.IH[OF this] True show ?thesis by simp
  next
    case False
    with Cons.prems obtain v w where v: "map_of c key = Some v" "first_elem v = Inr w"
      and r: "truncate_keys keys (AList.update key w c) = Inr c'"
      by (auto split: option.splits sum.splits)
    from Cons.IH[OF r] have t: "truncated_on (set keys - {''docker_image''}) (AList.update key w c) c'"
      and f: "map fst c' = map fst (AList.update key w c)" by simp_all
    have "key \<in> fst ` set c" using v(1) by (metis map_of_eq_None_iff option.distinct(1))
    then have f': "map fst (AList.update key w c) = map fst c" by (simp add: update_keys)
    have "truncated_on ({key} \<union> (set keys - {''docker_image''})) c c'"
      using truncated_on_trans[OF truncated_on_update[OF v] t] .
    moreover have "{key} \<union> (set keys - {''docker_image''}) = set (key # keys) - {''docker_image''}"
      using False by auto
    ultimately show ?thesis using f f' by simp
  qed
qed

lemma ziplists_loop_spec:
  assumes "ziplists_loop zs c = Inr c'"
  shows "truncated_on (truncated_keys zs) c c' \<and> map fst c' = map fst c"
  using assms
proof (induction zs arbitrary: c)
  case Nil
  then show ?case by (simp add: truncated_on_refl)
next
  case (Cons z zs)
  obtain b g where z: "z = (b, g)" by (cases z)
  show ?case
  proof (cases b)
    case True
    with Cons.prems z obtain c1 where c1: "truncate_keys g c = Inr c1"
      and r: "ziplists_loop zs c1 = Inr c'"
      by (auto split: sum.splits)
    from truncate_keys_spec[OF c1] Cons.IH[OF r] truncated_on_trans
    show ?thesis unfolding z using True by auto
  next
    case False
    with Cons.prems z have "ziplists_loop zs c = Inr c'" by simp
    from Cons.IH[OF this] False show ?thesis unfolding z by simp
  qed
qed

lemma truncatable_update:
  assumes "first_elem v = Inr w" "truncatable c k"
  shows "truncatable (AList.update key w c) k"
  using assms first_elem_idem[OF assms(1)] by (auto simp: truncatable_def update_conv')

lemma truncate_keys_total:
  assumes "\<forall>k \<in> set keys - {''docker_image''}. truncatable c k"
  shows "\<exists>c'. truncate_keys keys c = Inr c' \<and> (\<forall>k. truncatable c k \<longrightarrow> truncatable c' k)"
  using assms
proof (induction keys arbitrary: c)
  case Nil
  then show ?case by simp
next
  case (Cons key keys)
  show ?case
  proof (cases "key = ''docker_image''")
    case True
    with Cons show ?thesis by simp
  next
    case False
    with Cons.prems have "truncatable c key" by simp
    then obtain v w where v: "map_of c key = Some v" "first_elem v = Inr w"
      unfolding truncatable_def by blast
    have "\<forall>k \<in> set keys - {''docker_image''}. truncatable (AList.update key w c) k"
      using Cons.prems truncatable_update[OF v(2)] by simp
    from Cons.IH[OF this] obtain c' where
      "truncate_keys keys (AList.update key w c) = Inr c'"
      "\<forall>k. truncatable (AList.update key w c) k \<longrightarrow> truncatable c' k" by blast
    then show ?thesis using False v truncatable_update[OF v(2)] by auto
  qed
qed

lemma ziplists_loop_total:
  assumes "\<forall>k \<in> truncated_keys zs. truncatable c k"
  shows "\<exists>c'. ziplists_loop zs c = Inr c'"
  using assms
proof (induction zs arbitrary: c)
  case Nil
  then show ?case by simp
next
  case (Cons z zs)
  obtain b g where z: "z = (b, g)" by (cases z)
  show ?case
  proof (cases b)
    case True
    with Cons.prems z have "\<forall>k \<in> set g - {''docker_image''}. truncatable c k" by simp
    from truncate_keys_total[OF this] obtain c1 where c1: "truncate_keys g c = Inr c1"
      "\<forall>k. truncatable c k \<longrightarrow> truncatable c1 k" by blast
    with Cons.prems z have "\<forall>k \<in> truncated_keys zs. truncatable c1 k" by simp
    from Cons.IH[OF this] c1(1) True z show ?thesis by simp
  next
    case False
    with Cons.prems z have "\<forall>k \<in> truncated_keys zs. truncatable c k" by simp
    from Cons.IH[OF this] False z show ?thesis by simp
  qed
qed


lemma truncated_keys_Groups:
  "truncated_keys (ziplists (Groups gs))
     = {k. k \<noteq> ''docker_image'' \<and> (\<exists>g \<in> set gs. ''docker_image'' \<in> set g \<and> k \<in> set g)}"
  by (induction gs) auto

lemma set_docker_image_spec:
  assumes "\<forall>v. map_of config ''docker_image'' = Some v \<longrightarrow> (\<exists>w. first_elem v = Inr w)"
  shows "\<exists>c1. set_docker_image config fc = Inr c1
     \<and> (case map_of config ''docker_image'' of
          None \<Rightarrow> map_of c1 ''docker_image'' = Some (Strs [fc_docker_fallback_image fc])
        | Some v \<Rightarrow> \<exists>w. first_elem v = Inr w \<and> map_of c1 ''docker_image'' = Some w)
     \<and> (\<forall>k. k \<noteq> ''docker_image'' \<longrightarrow> map_of c1 k = map_of config k)
     \<and> map fst c1 = (if map_of config ''docker_image'' = None
                      then map fst config @ [''docker_image''] else map fst config)"
proof (cases "map_of config ''docker_image''")
  case None
  then have "''docker_image'' \<notin> set (map fst config)" by (simp add: map_of_eq_None_iff)
  with None show ?thesis
    by (simp add: set_docker_image_def update_conv' update_keys)
next
  case (Some v)
  with assms obtain w where w: "first_elem v = Inr w" by blast
  from Some have "''docker_image'' \<in> set (map fst config)"
    by (metis map_of_eq_None_iff option.distinct(1) set_map)
  with Some w show ?thesis
    by (simp add: set_docker_image_def update_conv' update_keys)
qed

text \<open>
  C9. On a build platform that starts with \<open>linux\<close>, for a Config whose \<open>zip_keys\<close>,
  if present, is a list of groups, whose \<open>docker_image\<close>, if present, is not empty, and in
  which the other members of the groups that contain \<open>docker_image\<close> are present and not
  empty: \<open>finalize_config\<close> returns a Config in which \<open>docker_image\<close> is the singleton
  list of its first element, or of the fallback image when the key was absent (it is then
  appended as the last key); every other member of a group that contains
  \<open>docker_image\<close> is the singleton list of its first element; every other key holds what
  it held.
\<close>

theorem finalize_config_linux:
  assumes bp: "map_of (fc_build_platform fc) (platform @ ''_'' @ arch) = Some build_platform"
    and linux: "prefix ''linux'' build_platform"
    and zk: "map_of config ''zip_keys'' = None \<and> gs = []
             \<or> map_of config ''zip_keys'' = Some (Groups gs)"
    and di: "\<forall>v. map_of config ''docker_image'' = Some v \<longrightarrow> (\<exists>w. first_elem v = Inr w)"
    and members: "\<forall>g \<in> set gs. ''docker_image'' \<in> set g \<longrightarrow>
        (\<forall>k \<in> set g. k \<noteq> ''docker_image'' \<longrightarrow>
           (\<exists>v w. map_of config k = Some v \<and> first_elem v = Inr w))"
  shows "\<exists>c'. finalize_config config platform arch fc = Inr c'
     \<and> (case map_of config ''docker_image'' of
          None \<Rightarrow> map_of c' ''docker_image'' = Some (Strs [fc_docker_fallback_image fc])
        | Some v \<Rightarrow> \<exists>w. first_elem v = Inr w \<and> map_of c' ''docker_image'' = Some w)
     \<and> (\<forall>g \<in> set gs. ''docker_image'' \<in> set g \<longrightarrow>
          (\<forall>k \<in> set g. k \<noteq> ''docker_image'' \<longrightarrow>
             (\<exists>v w. map_of config k = Some v \<and> first_elem v = Inr w \<and> map_of c' k = Some w)))
     \<and> (\<forall>k. k \<noteq> ''docker_image'' \<and> (\<forall>g \<in> set gs. ''docker_image'' \<in> set g \<longrightarrow> k \<notin> set g) \<longrightarrow>
          map_of c' k = map_of config k)
     \<and> map fst c' = (if map_of config ''docker_image'' = None
                      then map fst config @ [''docker_image''] else map fst config)"
proof -
  from set_docker_image_spec[OF di, of fc] obtain c1 where
    c1: "set_docker_image config fc = Inr c1"
    and d1: "case map_of config ''docker_image'' of
          None \<Rightarrow> map_of c1 ''docker_image'' = Some (Strs [fc_docker_fallback_image fc])
        | Some v \<Rightarrow> \<exists>w. first_elem v = Inr w \<and> map_of c1 ''docker_image'' = Some w"
    and o1: "\<And>k. k \<noteq> ''docker_image'' \<Longrightarrow> map_of c1 k = map_of config k"
    and f1: "map fst c1 = (if map_of config ''docker_image'' = None
                      then map fst config @ [''docker_image''] else map fst config)"
    by blast
  let ?T = "{k. k \<noteq> ''docker_image'' \<and> (\<exists>g \<in> set gs. ''docker_image'' \<in> set g \<and> k \<in> set g)}"
  have fin: "finalize_config config platform arch fc =
      (case map_of c1 ''zip_keys'' of None \<Rightarrow> Inr c1
       | Some z \<Rightarrow> ziplists_loop (ziplists z) c1)"
    using bp linux c1 by (simp add: finalize_config_def)
  have zk1: "map_of c1 ''zip_keys'' = map_of config ''zip_keys''" by (simp add: o1)
  have "\<exists>c'. finalize_config config platform arch fc = Inr c' \<and> truncated_on ?T c1 c'
          \<and> map fst c' = map fst c1"
  proof (cases "map_of config ''zip_keys''")
    case None
    with zk have "gs = []" by simp
    then have "truncated_on ?T c1 c1" by (simp add: truncated_on_def)
    with None fin zk1 show ?thesis by simp
  next
    case (Some z)
    with zk have z: "z = Groups gs" by simp
    have "\<forall>k \<in> truncated_keys (ziplists z). truncatable c1 k"
      unfolding z truncated_keys_Groups truncatable_def using members o1 by auto
    from ziplists_loop_total[OF this] obtain c' where c': "ziplists_loop (ziplists z) c1 = Inr c'" ..
    from ziplists_loop_spec[OF c'] Some fin zk1 c' show ?thesis
      unfolding z truncated_keys_Groups by simp
  qed
  then obtain c' where r: "finalize_config config platform arch fc = Inr c'"
    and t: "truncated_on ?T c1 c'" and f: "map fst c' = map fst c1" by blast
  from t have tin: "\<exists>v w. map_of c1 k = Some v \<and> first_elem v = Inr w \<and> map_of c' k = Some w"
    if "k \<in> ?T" for k
    using that unfolding truncated_on_def by meson
  from t have tout: "map_of c' k = map_of c1 k" if "k \<notin> ?T" for k
    using that unfolding truncated_on_def by meson
  show ?thesis
  proof (rule exI[of _ c'], intro conjI)
    show "finalize_config config platform arch fc = Inr c'" by (rule r)
    show "case map_of config ''docker_image'' of
          None \<Rightarrow> map_of c' ''docker_image'' = Some (Strs [fc_docker_fallback_image fc])
        | Some v \<Rightarrow> \<exists>w. first_elem v = Inr w \<and> map_of c' ''docker_image'' = Some w"
      using d1 tout[of "''docker_image''"] by (simp split: option.splits)
    show "\<forall>g \<in> set gs. ''docker_image'' \<in> set g \<longrightarrow>
          (\<forall>k \<in> set g. k \<noteq> ''docker_image'' \<longrightarrow>
             (\<exists>v w. map_of config k = Some v \<and> first_elem v = Inr w \<and> map_of c' k = Some w))"
    proof (intro ballI impI)
      fix g k assume "g \<in> set gs" "''docker_image'' \<in> set g" "k \<in> set g" "k \<noteq> ''docker_image''"
      then have "k \<in> ?T" by blast
      from tin[OF this] o1[OF \<open>k \<noteq> ''docker_image''\<close>]
      show "\<exists>v w. map_of config k = Some v \<and> first_elem v = Inr w \<and> map_of c' k = Some w"
        by simp
    qed
    show "\<forall>k. k \<noteq> ''docker_image'' \<and> (\<forall>g \<in> set gs. ''docker_image'' \<in> set g \<longrightarrow> k \<notin> set g) \<longrightarrow>
          map_of c' k = map_of config k"
    proof (intro allI impI)
      fix k assume a: "k \<noteq> ''docker_image'' \<and> (\<forall>g \<in> set gs. ''docker_image'' \<in> set g \<longrightarrow> k \<notin> set g)"
      then have "k \<notin> ?T" by blast
      from tout[OF this] o1 a show "map_of c' k = map_of config k" by simp
    qed
    show "map fst c' = (if map_of config ''docker_image'' = None
                      then map fst config @ [''docker_image''] else map fst config)"
      using f f1 by simp
  qed
qed

lemma finalize_config_other_platform:
  assumes "map_of (fc_build_platform fc) (platform @ ''_'' @ arch) = Some build_platform"
    and "\<not> prefix ''linux'' build_platform"
  shows "finalize_config config platform arch fc = Inr config"
  using assms by (simp add: finalize_config_def)

theorem finalize_config_linux_witness:
  "finalize_config
     [(''docker_image'', Strs [''img1'', ''img2'']), (''cdt_name'', Strs [''cos6'', ''cos7'']),
      (''python'', Strs [''3.9'', ''3.10'']),
      (''zip_keys'', Groups [[''docker_image'', ''cdt_name'']])]
     ''linux'' ''64'' \<lparr>fc_build_platform = [(''linux_64'', ''linux_64'')], fc_docker_fallback_image = ''quay.io/condaforge/linux-anvil-cos7-x86_64''\<rparr>
   = Inr [(''docker_image'', Strs [''img1'']), (''cdt_name'', Strs [''cos6'']),
          (''python'', Strs [''3.9'', ''3.10'']),
          (''zip_keys'', Groups [[''docker_image'', ''cdt_name'']])]"
  using finalize_config_linux[of "\<lparr>fc_build_platform = [(''linux_64'', ''linux_64'')], fc_docker_fallback_image = ''quay.io/condaforge/linux-anvil-cos7-x86_64''\<rparr>" "''linux''" "''64''" "''linux_64''"
      "[(''docker_image'', Strs [''img1'', ''img2'']), (''cdt_name'', Strs [''cos6'', ''cos7'']), (''python'', Strs [''3.9'', ''3.10'']), (''zip_keys'', Groups [[''docker_image'', ''cdt_name'']])]" "[[''docker_image'', ''cdt_name'']]"]
  by (simp add: finalize_config_def set_docker_image_def)

section \<open>Sorting: results\<close>

lemma collect_Inr:
  assumes "\<forall>x \<in> set xs. f x = Inr (g x)"
  shows "collect f xs = Inr (map g xs)"
  using assms by (induction xs) auto

lemma collect_list_all2:
  assumes "\<forall>x \<in> set xs. \<exists>y. f x = Inr y \<and> P x y"
  shows "\<exists>ys. collect f xs = Inr ys \<and> list_all2 P xs ys"
  using assms
proof (induction xs)
  case Nil
  then show ?case by simp
next
  case (Cons x xs)
  then obtain y ys where "f x = Inr y" "P x y" "collect f xs = Inr ys" "list_all2 P xs ys"
    by auto
  then show ?case by auto
qed

lemma mset_argsort: "mset (argsort seq) = mset [0..<length seq]"
  by (simp add: argsort_def)

lemma mset_reordered:
  assumes "mset order = mset [0..<length xs]"
  shows "reorder order xs = Inr (map (\<lambda>i. xs ! i) order)"
    and "mset (map (\<lambda>i. xs ! i) order) = mset xs"
proof -
  from assms have "set order = {0..<length xs}" by (metis mset_eq_setD set_upt)
  then show "reorder order xs = Inr (map (\<lambda>i. xs ! i) order)"
    by (simp add: reorder_def)
  have "mset (map (\<lambda>i. xs ! i) order) = image_mset (\<lambda>i. xs ! i) (mset [0..<length xs])"
    using assms by (metis mset_map)
  also have "\<dots> = mset (map (\<lambda>i. xs ! i) [0..<length xs])" by simp
  also have "\<dots> = mset xs" by (simp add: map_nth)
  finally show "mset (map (\<lambda>i. xs ! i) order) = mset xs" .
qed

text \<open>
  \<open>argsort\<close> gives a permutation of the positions that arranges the sequence in ascending
  order and keeps equal elements in the order they had.
\<close>

lemma argsort_sorted: "sorted (map (\<lambda>i. seq ! i) (argsort seq))"
  by (simp add: argsort_def)

lemma argsort_stable:
  "filter (\<lambda>i. seq ! i = x) (argsort seq) = filter (\<lambda>i. seq ! i = x) [0..<length seq]"
  unfolding argsort_def by (rule sort_key_stable)

lemma find_snoc:
  "find P (xs @ [x]) = (case find P xs of None \<Rightarrow> if P x then Some x else None | Some y \<Rightarrow> Some y)"
  by (induction xs) auto

lemma find_SomeD: "find P xs = Some x \<Longrightarrow> x \<in> set xs \<and> P x"
  by (induction xs) (auto split: if_splits)

lemma map_of_foldl_update:
  "map_of (foldl (\<lambda>so key. AList.update key order so) so g) k
     = (if k \<in> set g then Some order else map_of so k)"
  by (induction g arbitrary: so) (auto simp: update_conv')

lemma group_rows_collected:
  assumes "\<forall>k \<in> set g. \<exists>xs. map_of config k = Some (Strs xs) \<and> length xs = n"
  shows "collect (\<lambda>idx. collect (\<lambda>key. cell config key idx) g) [0..<n]
          = Inr (map (\<lambda>idx. map (\<lambda>k. domain_of config k ! idx) g) [0..<n])"
proof -
  have cells: "\<forall>k \<in> set g. cell config k idx = Inr (domain_of config k ! idx)" if "idx < n" for idx
    using assms that by (auto simp: cell_def domain_of_def)
  have row: "collect (\<lambda>key. cell config key idx) g = Inr (map (\<lambda>k. domain_of config k ! idx) g)"
    if "idx < n" for idx
    by (rule collect_Inr) (use cells[OF that] in simp)
  show ?thesis
    by (rule collect_Inr) (use row in simp)
qed

lemma group_rows_length:
  assumes "\<forall>k \<in> set g. \<exists>xs. map_of config k = Some (Strs xs) \<and> length xs = n" "g \<noteq> []"
  shows "length (group_rows config g) = n"
proof -
  from assms(2) have "hd g \<in> set g" by simp
  with assms(1) have "length (domain_of config (hd g)) = n" by (auto simp: domain_of_def)
  then show ?thesis by (simp add: group_rows_def)
qed

text \<open>
  The first loop of \<open>sort_config\<close>: the order of a key is that of the last group that
  holds it, computed from the rows of the group.
\<close>

lemma sorting_orders_ok:
  assumes "\<forall>g \<in> set groups. \<exists>n. \<forall>k \<in> set g. \<exists>xs. map_of config k = Some (Strs xs) \<and> length xs = n"
  shows "\<exists>so'. sorting_orders config groups so = Inr so'
     \<and> (\<forall>k. map_of so' k = (case find (\<lambda>g. k \<in> set g) (rev groups) of
                               None \<Rightarrow> map_of so k
                             | Some g \<Rightarrow> Some (argsort (group_rows config g))))"
  using assms
proof (induction groups arbitrary: so)
  case Nil
  then show ?case by simp
next
  case (Cons g groups)
  have wf: "\<forall>g \<in> set groups. \<exists>n. \<forall>k \<in> set g. \<exists>xs. map_of config k = Some (Strs xs) \<and> length xs = n"
    using Cons.prems by simp
  show ?case
  proof (cases g)
    case Nil
    from Cons.IH[OF wf, of so] obtain so' where
      so': "sorting_orders config groups so = Inr so'"
      and ex: "\<forall>k. map_of so' k = (case find (\<lambda>g. k \<in> set g) (rev groups) of
                               None \<Rightarrow> map_of so k
                             | Some g \<Rightarrow> Some (argsort (group_rows config g)))" by blast
    have "sorting_orders config (g # groups) so = Inr so'" using so' Nil by simp
    moreover have "\<forall>k. map_of so' k = (case find (\<lambda>g. k \<in> set g) (rev (g # groups)) of
                               None \<Rightarrow> map_of so k
                             | Some g \<Rightarrow> Some (argsort (group_rows config g)))"
      using ex Nil by (simp add: find_snoc split: option.splits)
    ultimately show ?thesis by blast
  next
    case (Cons g0 gr)
    from Cons.prems obtain n where
      n: "\<forall>k \<in> set g. \<exists>xs. map_of config k = Some (Strs xs) \<and> length xs = n" by auto
    then obtain xs0 where x0: "map_of config g0 = Some (Strs xs0)" "length xs0 = n"
      using Cons by auto
    have gne: "g \<noteq> []" using Cons by simp
    have rows: "group_rows config g = map (\<lambda>idx. map (\<lambda>k. domain_of config k ! idx) g) [0..<n]"
      using group_rows_length[OF n gne] by (simp add: group_rows_def)
    let ?so = "foldl (\<lambda>so key. AList.update key (argsort (group_rows config g)) so) so g"
    from Cons.IH[OF wf, of ?so] obtain so' where
      so': "sorting_orders config groups ?so = Inr so'"
      and ex: "\<forall>k. map_of so' k = (case find (\<lambda>g. k \<in> set g) (rev groups) of
                               None \<Rightarrow> map_of ?so k
                             | Some g \<Rightarrow> Some (argsort (group_rows config g)))" by blast
    have coll: "collect (\<lambda>idx. collect (\<lambda>key. cell config key idx) (g0 # gr))
                  [0..<value_len (Strs xs0)] = Inr (group_rows config (g0 # gr))"
      using group_rows_collected[OF n] rows x0(2) unfolding Cons by simp
    have "sorting_orders config (g # groups) so = Inr so'"
      unfolding Cons
      by (simp only: sorting_orders.simps x0(1) option.case coll sum.case so'[unfolded Cons])
    moreover have "\<forall>k. map_of so' k = (case find (\<lambda>g. k \<in> set g) (rev (g # groups)) of
                               None \<Rightarrow> map_of so k
                             | Some g \<Rightarrow> Some (argsort (group_rows config g)))"
      using ex by (simp add: find_snoc map_of_foldl_update split: option.splits)
    ultimately show ?thesis by blast
  qed
qed

lemma exact_orders_good:
  assumes "\<forall>g \<in> set groups. \<exists>n. \<forall>k \<in> set g. \<exists>xs. map_of config k = Some (Strs xs) \<and> length xs = n"
    and "\<forall>k. map_of so k = (case find (\<lambda>g. k \<in> set g) (rev groups) of
                               None \<Rightarrow> None
                             | Some g \<Rightarrow> Some (argsort (group_rows config g)))"
  shows "good_orders config so"
  unfolding good_orders_def
proof (intro allI impI)
  fix key order assume "map_of so key = Some order"
  with assms(2) obtain g where f: "find (\<lambda>g. key \<in> set g) (rev groups) = Some g"
    and o: "order = argsort (group_rows config g)"
    by (auto split: option.splits)
  from find_SomeD[OF f] have g: "g \<in> set groups" and kg: "key \<in> set g" by simp_all
  from assms(1) g obtain n where
    n: "\<forall>k \<in> set g. \<exists>xs. map_of config k = Some (Strs xs) \<and> length xs = n" by blast
  with kg obtain xs where xs: "map_of config key = Some (Strs xs)" "length xs = n" by blast
  from kg have "g \<noteq> []" by auto
  from group_rows_length[OF n this] have "mset order = mset [0..<n]"
    unfolding o by (simp add: mset_argsort)
  with xs show "\<exists>xs. map_of config key = Some (Strs xs) \<and> mset order = mset [0..<length xs]"
    by simp
qed

lemma sort_item_ok:
  assumes "good_orders config so" "map_of config k = Some v"
    and "k = ''pin_run_as_build'' \<longrightarrow> (\<exists>p. v = Pins p)"
  shows "sort_item so (k, v) =
     Inr (k, case v of
               Strs xs \<Rightarrow> Strs (case map_of so k of
                                  None \<Rightarrow> sort xs
                                | Some order \<Rightarrow> map (\<lambda>i. xs ! i) order)
             | Groups g \<Rightarrow> Groups (sort g)
             | Pins p \<Rightarrow> Pins (if k = ''pin_run_as_build'' then sort_pins p else p))"
proof (cases v)
  case (Strs xs)
  with assms(3) have nk: "k \<noteq> ''pin_run_as_build''" by auto
  show ?thesis
  proof (cases "map_of so k")
    case None
    with Strs nk show ?thesis by (simp add: sort_item_def)
  next
    case (Some order)
    with assms Strs have "mset order = mset [0..<length xs]"
      unfolding good_orders_def by fastforce
    from mset_reordered(1)[OF this] Some Strs nk show ?thesis
      by (simp add: sort_item_def)
  qed
next
  case (Groups g)
  with assms(3) have nk: "k \<noteq> ''pin_run_as_build''" by auto
  have "map_of so k = None"
  proof (cases "map_of so k")
    case (Some order)
    with assms Groups show ?thesis unfolding good_orders_def by fastforce
  qed simp
  with Groups nk show ?thesis by (simp add: sort_item_def)
next
  case (Pins p)
  then show ?thesis by (simp add: sort_item_def)
qed

lemma present_groups_ok:
  assumes "sortable config zip_key_groups"
  shows "\<forall>g \<in> set (present_groups config zip_key_groups).
           \<exists>n. \<forall>k \<in> set g. \<exists>xs. map_of config k = Some (Strs xs) \<and> length xs = n"
proof
  fix g assume "g \<in> set (present_groups config zip_key_groups)"
  then obtain g0 where g0: "g0 \<in> set zip_key_groups"
    and g: "g = filter (\<lambda>pkg. map_of config pkg \<noteq> None) g0"
    by (auto simp: present_groups_def)
  from assms g0 obtain n where
    "\<forall>k \<in> set g0. \<forall>v. map_of config k = Some v \<longrightarrow> (\<exists>xs. v = Strs xs \<and> length xs = n)"
    unfolding sortable_def by blast
  then have "\<forall>k \<in> set g. \<exists>xs. map_of config k = Some (Strs xs) \<and> length xs = n"
    unfolding g by auto
  then show "\<exists>n. \<forall>k \<in> set g. \<exists>xs. map_of config k = Some (Strs xs) \<and> length xs = n" ..
qed

text \<open>
  On a sortable Config \<open>sort_config\<close> raises nothing and gives each key its sorted value.
\<close>

lemma sort_config_ok:
  assumes "sortable config zip_key_groups" and "distinct (map fst config)"
  shows "sort_config config zip_key_groups
           = Inr (map (\<lambda>(k, v). (k, sorted_value config zip_key_groups k v)) config)"
proof -
  let ?groups = "present_groups config zip_key_groups"
  note wf = present_groups_ok[OF assms(1)]
  from sorting_orders_ok[OF wf, of "[]"] obtain so where
    so: "sorting_orders config ?groups [] = Inr so"
    and ex0: "\<forall>k. map_of so k = (case find (\<lambda>g. k \<in> set g) (rev ?groups) of
                               None \<Rightarrow> map_of [] k
                             | Some g \<Rightarrow> Some (argsort (group_rows config g)))"
    by blast
  from ex0 have ex: "\<forall>k. map_of so k = (case find (\<lambda>g. k \<in> set g) (rev ?groups) of
                               None \<Rightarrow> None
                             | Some g \<Rightarrow> Some (argsort (group_rows config g)))"
    by (simp split: option.splits)
  from exact_orders_good[OF wf ex] have good: "good_orders config so" .
  have "\<forall>kv \<in> set config. sort_item so kv
          = Inr ((\<lambda>(k, v). (k, sorted_value config zip_key_groups k v)) kv)"
  proof
    fix kv assume m: "kv \<in> set config"
    obtain k v where kv: "kv = (k, v)" by (cases kv)
    from m kv assms(2) have mk: "map_of config k = Some v" by simp
    have "k = ''pin_run_as_build'' \<longrightarrow> (\<exists>p. v = Pins p)"
      using assms(1) mk unfolding sortable_def by auto
    from sort_item_ok[OF good mk this] ex
    show "sort_item so kv = Inr ((\<lambda>(k, v). (k, sorted_value config zip_key_groups k v)) kv)"
      unfolding kv by (simp add: sorted_value_def split: val.splits option.splits)
  qed
  from collect_Inr[OF this] so show ?thesis
    by (simp add: sort_config_def present_groups_def)
qed


lemma map_fst_keyed: "map fst (map (\<lambda>(k, v). (k, f k v)) c) = map fst c"
  by (induction c) auto



section \<open>Partitioning: results\<close>

lemma delete_keys_missing:
  assumes "k \<in> set ks" "map_of sv k = None"
  shows "\<exists>e. delete_keys ks sv = Inl e"
  using assms
proof (induction ks arbitrary: sv)
  case Nil
  then show ?case by simp
next
  case (Cons k' ks)
  show ?case
  proof (cases "map_of sv k' = None")
    case True
    then show ?thesis by simp
  next
    case False
    with Cons.prems have "k \<in> set ks" "map_of (AList.delete k' sv) k = None"
      by (auto simp: delete_conv')
    from Cons.IH[OF this] False show ?thesis by simp
  qed
qed

lemma delete_keys_Inr:
  assumes "delete_keys ks sv = Inr sv'"
  shows "sv' = filter (\<lambda>kv. fst kv \<notin> set ks) sv"
  using assms
proof (induction ks arbitrary: sv)
  case Nil
  then show ?case by simp
next
  case (Cons k ks)
  then have "delete_keys ks (AList.delete k sv) = Inr sv'"
    by (simp split: if_splits)
  from Cons.IH[OF this] show ?case
    by (auto simp: AList.delete_eq case_prod_unfold intro!: filter_cong)
qed

lemma map_of_filter_keys:
  "map_of (filter (\<lambda>kv. fst kv \<notin> K) sv) k = (if k \<in> K then None else map_of sv k)"
  by (induction sv) auto

lemma break_up_loop_missing:
  assumes "k \<in> set keys" "map_of sv k = None" "k \<notin> set acc"
  shows "\<exists>e. break_up_loop top_keys gs keys (acc, zcs, tlds, sv) = Inl e"
  using assms
proof (induction keys arbitrary: acc zcs tlds sv)
  case Nil
  then show ?case by simp
next
  case (Cons key keys)
  show ?case
  proof (cases "key \<in> set acc")
    case True
    with Cons.prems have "k \<in> set keys" by auto
    from Cons.IH[OF this Cons.prems(2,3)] True show ?thesis by simp
  next
    case nacc: False
    show ?thesis
    proof (cases "map_of sv key")
      case None
      with nacc show ?thesis by (simp split: option.splits)
    next
      case (Some v)
      with Cons.prems have kk: "k \<in> set keys" by auto
      show ?thesis
      proof (cases "find (\<lambda>g. key \<in> set g) gs")
        case None
        have "map_of (AList.delete key sv) k = None"
          using Cons.prems(2) by (simp add: delete_conv')
        from Cons.IH[OF kk this Cons.prems(3)] None Some nacc show ?thesis by simp
      next
        case (Some grp)
        note grp = Some
        show ?thesis
        proof (cases "zip_rows top_keys grp sv [0..<value_len v] []")
          case (Inl e)
          with grp \<open>map_of sv key = Some v\<close> nacc show ?thesis by simp
        next
          case (Inr tlcd)
          show ?thesis
          proof (cases "delete_keys grp sv")
            case (Inl e)
            with Inr grp \<open>map_of sv key = Some v\<close> nacc show ?thesis by simp
          next
            case (Inr sv')
            have "k \<notin> set grp"
              using delete_keys_missing[OF _ Cons.prems(2), of grp] Inr by auto
            with Cons.prems(3) have a: "k \<notin> set (acc @ grp)" by simp
            have "map_of sv' k = None"
              using delete_keys_Inr[OF Inr] Cons.prems(2) by (simp add: map_of_filter_keys)
            from Cons.IH[OF kk this a] Inr \<open>zip_rows top_keys grp sv [0..<value_len v] [] = Inr tlcd\<close>
              grp \<open>map_of sv key = Some v\<close> nacc
            show ?thesis by simp
          qed
        qed
      qed
    qed
  qed
qed

lemma break_up_missing_key:
  assumes "k \<in> set top_keys" "map_of sv k = None"
  shows "\<exists>e. break_up_top_level_values top_keys sv = Inl e"
proof (cases "initial_zip_key_groups sv")
  case (Inl e)
  then show ?thesis by (simp add: break_up_top_level_values_def)
next
  case (Inr gs)
  from break_up_loop_missing[OF assms, of "[]" top_keys gs "[]" "[]"] Inr show ?thesis
    by (auto simp: break_up_top_level_values_def)
qed

lemma dict_update_append:
  assumes "distinct (map fst (a @ c))"
  shows "dict_update a c = a @ c"
  using assms
proof (induction c arbitrary: a)
  case Nil
  then show ?case by (simp add: dict_update_def)
next
  case (Cons kv c)
  obtain k v where kv: "kv = (k, v)" by (cases kv)
  from Cons.prems kv have "k \<notin> fst ` set a" by auto
  then have u: "AList.update k v a = a @ [(k, v)]"
    by (induction a) auto
  from Cons.prems have "distinct (map fst ((a @ [kv]) @ c))" by simp
  from Cons.IH[OF this] u kv show ?case by (simp add: dict_update_def)
qed

text \<open>
  C7, as the code has it. With no top-level variable name, for a mapping that is a dict,
  whose \<open>zip_keys\<close>, if present, is a list of groups, and that is sortable,
  \<open>break_up_top_level_values\<close> returns exactly one Config: it has the keys of the
  mapping, in their order, each with the sorted value of the value the mapping holds, as
  \<open>sort_config\<close> computes it (so the empty mapping gives one empty Config). A top-level
  variable name that is not a key of the mapping is not skipped: whatever the mapping, the
  function then raises.
\<close>

theorem break_up_without_top_level:
  assumes keys: "distinct (map fst sv)"
    and zk: "map_of sv ''zip_keys'' = None \<and> gs = [] \<or> map_of sv ''zip_keys'' = Some (Groups gs)"
    and srt: "sortable sv gs"
  shows "break_up_top_level_values [] sv
           = Inr [map (\<lambda>(k, v). (k, sorted_value sv gs k v)) sv]
     \<and> sort_config sv gs = Inr (map (\<lambda>(k, v). (k, sorted_value sv gs k v)) sv)
     \<and> (\<forall>top_keys k. k \<in> set top_keys \<and> map_of sv k = None \<longrightarrow>
            (\<exists>e. break_up_top_level_values top_keys sv = Inl e))"
proof (intro conjI)
  let ?c = "map (\<lambda>(k, v). (k, sorted_value sv gs k v)) sv"
  show c: "sort_config sv gs = Inr ?c" by (rule sort_config_ok[OF srt keys])
  have ig: "initial_zip_key_groups sv = Inr gs"
    using zk by (auto simp: initial_zip_key_groups_def)
  have g': "(case map_of sv ''zip_keys'' of Some z \<Rightarrow> raw_groups z | None \<Rightarrow> gs) = gs"
    using zk by auto
  have "map fst ?c = map fst sv" by (rule map_fst_keyed)
  then have "distinct (map fst ?c)" using keys by (simp only:)
  then have "dict_update [] ?c = ?c" using dict_update_append[of "[]" ?c] by simp
  then have "map (foldl dict_update []) (product_lists (if ?c \<noteq> [] then [[?c]] else [])) = [?c]"
    by simp
  then show "break_up_top_level_values [] sv = Inr [?c]"
    using ig g' c by (simp add: break_up_top_level_values_def)
  show "\<forall>top_keys k. k \<in> set top_keys \<and> map_of sv k = None \<longrightarrow>
            (\<exists>e. break_up_top_level_values top_keys sv = Inl e)"
    using break_up_missing_key by blast
qed

theorem break_up_without_top_level_witness:
  "break_up_top_level_values []
     [(''python'', Strs [''3.9'', ''3.10'']), (''numpy'', Strs [''1.21'', ''1.23'']),
      (''c_compiler'', Strs [''gcc'', ''clang'']),
      (''zip_keys'', Groups [[''python'', ''numpy'']])]
   = Inr [map (\<lambda>(k, v). (k, sorted_value
     [(''python'', Strs [''3.9'', ''3.10'']), (''numpy'', Strs [''1.21'', ''1.23'']),
      (''c_compiler'', Strs [''gcc'', ''clang'']),
      (''zip_keys'', Groups [[''python'', ''numpy'']])] [[''python'', ''numpy'']] k v))
     [(''python'', Strs [''3.9'', ''3.10'']), (''numpy'', Strs [''1.21'', ''1.23'']),
      (''c_compiler'', Strs [''gcc'', ''clang'']),
      (''zip_keys'', Groups [[''python'', ''numpy'']])]]
   \<and> break_up_top_level_values []
     [(''python'', Strs [''3.9'', ''3.10'']), (''numpy'', Strs [''1.21'', ''1.23'']),
      (''c_compiler'', Strs [''gcc'', ''clang'']),
      (''zip_keys'', Groups [[''python'', ''numpy'']])]
   = Inr [[(''python'', Strs [''3.10'', ''3.9'']), (''numpy'', Strs [''1.23'', ''1.21'']),
      (''c_compiler'', Strs [''clang'', ''gcc'']),
      (''zip_keys'', Groups [[''python'', ''numpy'']])]]
   \<and> (\<exists>e. break_up_top_level_values [''python''] [(''c_compiler'', Strs [''gcc''])] = Inl e)"
proof -
  have a: "break_up_top_level_values []
     [(''python'', Strs [''3.9'', ''3.10'']), (''numpy'', Strs [''1.21'', ''1.23'']),
      (''c_compiler'', Strs [''gcc'', ''clang'']),
      (''zip_keys'', Groups [[''python'', ''numpy'']])]
   = Inr [map (\<lambda>(k, v). (k, sorted_value
     [(''python'', Strs [''3.9'', ''3.10'']), (''numpy'', Strs [''1.21'', ''1.23'']),
      (''c_compiler'', Strs [''gcc'', ''clang'']),
      (''zip_keys'', Groups [[''python'', ''numpy'']])] [[''python'', ''numpy'']] k v))
     [(''python'', Strs [''3.9'', ''3.10'']), (''numpy'', Strs [''1.21'', ''1.23'']),
      (''c_compiler'', Strs [''gcc'', ''clang'']),
      (''zip_keys'', Groups [[''python'', ''numpy'']])]]"
    using break_up_without_top_level[of
      "[(''python'', Strs [''3.9'', ''3.10'']), (''numpy'', Strs [''1.21'', ''1.23'']),
      (''c_compiler'', Strs [''gcc'', ''clang'']),
      (''zip_keys'', Groups [[''python'', ''numpy'']])]" "[[''python'', ''numpy'']]"]
    by (simp add: sortable_def)
  have b: "break_up_top_level_values []
     [(''python'', Strs [''3.9'', ''3.10'']), (''numpy'', Strs [''1.21'', ''1.23'']),
      (''c_compiler'', Strs [''gcc'', ''clang'']),
      (''zip_keys'', Groups [[''python'', ''numpy'']])]
   = Inr [[(''python'', Strs [''3.10'', ''3.9'']), (''numpy'', Strs [''1.23'', ''1.21'']),
      (''c_compiler'', Strs [''clang'', ''gcc'']),
      (''zip_keys'', Groups [[''python'', ''numpy'']])]]"
    by code_simp
  have "\<forall>top_keys k. k \<in> set top_keys \<and> map_of [(''c_compiler'', Strs [''gcc''])] k = None \<longrightarrow>
            (\<exists>e. break_up_top_level_values top_keys [(''c_compiler'', Strs [''gcc''])] = Inl e)"
    using break_up_without_top_level[of "[(''c_compiler'', Strs [''gcc''])]" "[]"]
    by (simp add: sortable_def)
  then have c: "\<exists>e. break_up_top_level_values [''python''] [(''c_compiler'', Strs [''gcc''])] = Inl e"
    by (elim allE[of _ "[''python'']"] allE[of _ "''python''"]) simp
  from a b c show ?thesis by blast
qed

text \<open>
  C7 as the specification states it fails: \<open>python\<close> is a top-level variable name that
  is no key of the mapping \<open>{c_compiler: ["gcc"]}\<close>; the function does not return one
  Config, \<open>squished_variants["python"]\<close> raises \<open>KeyError\<close>.
\<close>

theorem break_up_unused_top_level_raises:
  "break_up_top_level_values [''python''] [(''c_compiler'', Strs [''gcc''])] = Inl KeyError"
  by code_simp




















lemma first_value_Strs:
  "map_of d k = Some (Strs (v # vs)) \<Longrightarrow> first_value d k = Inr v"
  by (simp add: first_value_def)













lemma domain_of_filter:
  "k \<notin> C \<Longrightarrow> domain_of (filter (\<lambda>kv. fst kv \<notin> C) sv) k = domain_of sv k"
  by (simp add: domain_of_def map_of_filter_keys)



















section \<open>Zip groups in the emitted Configs: results\<close>

lemma set_update_subset: "set (AList.update k v al) \<subseteq> insert (k, v) (set al)"
  by (induction al) auto

lemma keys_update: "fst ` set (AList.update k v al) = insert k (fst ` set al)"
  by (induction al) auto

lemma collect_Inr_D:
  "collect f xs = Inr ys \<Longrightarrow> list_all2 (\<lambda>x y. f x = Inr y) xs ys"
  by (induction xs arbitrary: ys) (auto split: sum.splits)

lemma set_dict_update: "set (dict_update c d) \<subseteq> set c \<union> set d"
  unfolding dict_update_def
proof (induction d arbitrary: c)
  case Nil
  show ?case by simp
next
  case (Cons kv d)
  obtain k v where kv: "kv = (k, v)" by (cases kv)
  have "set (foldl (\<lambda>c (k, v). AList.update k v c) (AList.update k v c) d)
      \<subseteq> set (AList.update k v c) \<union> set d" by (rule Cons.IH)
  with set_update_subset[of k v c] show ?case unfolding kv by auto
qed

lemma set_merge: "set (foldl dict_update c p) \<subseteq> set c \<union> \<Union>(set ` set p)"
proof (induction p arbitrary: c)
  case Nil
  show ?case by simp
next
  case (Cons d p)
  have "set (foldl dict_update (dict_update c d) p) \<subseteq> set (dict_update c d) \<union> \<Union>(set ` set p)"
    by (rule Cons.IH)
  with set_dict_update[of c d] show ?case by auto
qed

lemma zip_keys_within_merge:
  assumes "\<forall>d \<in> set p. zip_keys_within S d"
  shows "zip_keys_within S (foldl dict_update [] p)"
  using assms set_merge[of "[]" p] unfolding zip_keys_within_def by fastforce

lemma reorder_subset: "reorder order val = Inr val' \<Longrightarrow> set val' \<subseteq> set val"
  by (auto simp: reorder_def split: if_splits)

lemma sort_item_zip_keys:
  assumes "sort_item so (k, v) = Inr (k', v')"
  shows "k' = k"
    and "k = ''zip_keys'' \<Longrightarrow> \<exists>gs'. v = Groups gs' \<and> set gs' \<subseteq> S
         \<Longrightarrow> \<exists>gs'. v' = Groups gs' \<and> set gs' \<subseteq> S"
proof -
  show "k' = k"
    using assms by (auto simp: sort_item_def split: val.splits option.splits sum.splits if_splits)
  assume k: "k = ''zip_keys''" and "\<exists>gs'. v = Groups gs' \<and> set gs' \<subseteq> S"
  then obtain gs' where v: "v = Groups gs'" and s: "set gs' \<subseteq> S" by blast
  show "\<exists>gs'. v' = Groups gs' \<and> set gs' \<subseteq> S"
  proof (cases "map_of so k")
    case None
    with assms v k have "v' = Groups (sort gs')" by (simp add: sort_item_def)
    with s show ?thesis by simp
  next
    case (Some order)
    with assms v k obtain val' where "reorder order gs' = Inr val'" "v' = Groups val'"
      by (auto simp: sort_item_def split: sum.splits)
    with reorder_subset s show ?thesis by blast
  qed
qed

lemma sort_config_zip_keys:
  assumes "sort_config c g = Inr c'" "zip_keys_within S c"
  shows "zip_keys_within S c'"
proof -
  from assms(1) obtain so where "collect (sort_item so) c = Inr c'"
    by (auto simp: sort_config_def Let_def split: sum.splits)
  then have rel: "list_all2 (\<lambda>x y. sort_item so x = Inr y) c c'" by (rule collect_Inr_D)
  show ?thesis
    unfolding zip_keys_within_def
  proof (intro allI impI)
    fix v' assume "(''zip_keys'', v') \<in> set c'"
    then obtain i where i: "i < length c'" "c' ! i = (''zip_keys'', v')"
      by (metis in_set_conv_nth)
    with rel have si: "sort_item so (c ! i) = Inr (''zip_keys'', v')" and ic: "i < length c"
      by (auto simp: list_all2_conv_all_nth)
    obtain k v where kv: "c ! i = (k, v)" by (cases "c ! i")
    from sort_item_zip_keys(1)[OF si[unfolded kv]] have k: "k = ''zip_keys''" by simp
    from ic kv k have "(''zip_keys'', v) \<in> set c" by (metis nth_mem)
    with assms(2) have "\<exists>gs'. v = Groups gs' \<and> set gs' \<subseteq> S"
      unfolding zip_keys_within_def by blast
    from sort_item_zip_keys(2)[OF si[unfolded kv] k this]
    show "\<exists>gs'. v' = Groups gs' \<and> set gs' \<subseteq> S" .
  qed
qed

lemma sort_config_keys:
  assumes "sort_config c g = Inr c'"
  shows "map fst c' = map fst c"
proof -
  from assms(1) obtain so where "collect (sort_item so) c = Inr c'"
    by (auto simp: sort_config_def Let_def split: sum.splits)
  then have rel: "list_all2 (\<lambda>x y. sort_item so x = Inr y) c c'" by (rule collect_Inr_D)
  then show ?thesis
  proof (induction rule: list_all2_induct)
    case Nil
    show ?case by simp
  next
    case (Cons x xs y ys)
    obtain k v k' v' where "x = (k, v)" "y = (k', v')" by (cases x, cases y) auto
    with Cons sort_item_zip_keys(1) show ?case by auto
  qed
qed


lemma keys_foldl_update:
  "fst ` set (foldl (\<lambda>d (k, v). AList.update k (f v) d) d0 kvs) \<subseteq> fst ` set d0 \<union> fst ` set kvs"
proof (induction kvs arbitrary: d0)
  case Nil
  show ?case by simp
next
  case (Cons kv kvs)
  obtain k v where kv: "kv = (k, v)" by (cases kv)
  have 1: "fst ` set (foldl (\<lambda>d (k, v). AList.update k (f v) d) (AList.update k (f v) d0) kvs)
      \<subseteq> fst ` set (AList.update k (f v) d0) \<union> fst ` set kvs" by (rule Cons.IH)
  have 2: "fst ` set (AList.update k (f v) d0) = insert k (fst ` set d0)" by (rule keys_update)
  have 3: "foldl (\<lambda>d (k, v). AList.update k (f v) d) d0 (kv # kvs)
      = foldl (\<lambda>d (k, v). AList.update k (f v) d) (AList.update k (f v) d0) kvs"
    by (simp add: kv)
  have 4: "fst ` set (kv # kvs) = insert k (fst ` set kvs)" by (simp add: kv)
  show ?case unfolding 3 4 using 1 unfolding 2 by blast
qed

lemma keys_extend_keys:
  "fst ` set (foldl extend_key sq idict) \<subseteq> fst ` set sq \<union> fst ` set idict"
proof (induction idict arbitrary: sq)
  case Nil
  show ?case by simp
next
  case (Cons kv idict)
  obtain k v where kv: "kv = (k, v)" by (cases kv)
  have 1: "fst ` set (foldl extend_key (extend_key sq kv) idict)
      \<subseteq> fst ` set (extend_key sq kv) \<union> fst ` set idict" by (rule Cons.IH)
  have 2: "fst ` set (extend_key sq kv) = insert k (fst ` set sq)"
    unfolding kv extend_key_def by (simp add: keys_update)
  have 3: "foldl extend_key sq (kv # idict) = foldl extend_key (extend_key sq kv) idict"
    by simp
  have 4: "fst ` set (kv # idict) = insert k (fst ` set idict)" by (simp add: kv)
  show ?case unfolding 3 4 using 1 unfolding 2 by blast
qed

lemma keys_merge_from:
  "fst ` set (foldl (\<lambda>sq idict. foldl extend_key sq idict) sq0 rows)
     \<subseteq> fst ` set sq0 \<union> (\<Union>row \<in> set rows. fst ` set row)"
proof (induction rows arbitrary: sq0)
  case Nil
  show ?case by simp
next
  case (Cons row rows)
  have 1: "fst ` set (foldl (\<lambda>sq idict. foldl extend_key sq idict) (foldl extend_key sq0 row) rows)
      \<subseteq> fst ` set (foldl extend_key sq0 row) \<union> (\<Union>row \<in> set rows. fst ` set row)"
    by (rule Cons.IH)
  have 2: "fst ` set (foldl extend_key sq0 row) \<subseteq> fst ` set sq0 \<union> fst ` set row"
    by (rule keys_extend_keys)
  have 3: "foldl (\<lambda>sq idict. foldl extend_key sq idict) sq0 (row # rows)
      = foldl (\<lambda>sq idict. foldl extend_key sq idict) (foldl extend_key sq0 row) rows"
    by simp
  have 4: "(\<Union>r \<in> set (row # rows). fst ` set r) = fst ` set row \<union> (\<Union>r \<in> set rows. fst ` set r)"
    by simp
  show ?case unfolding 3 4 using 1 2 by blast
qed

lemma keys_merge_list_of_dicts:
  "fst ` set (merge_list_of_dicts rows) \<subseteq> (\<Union>row \<in> set rows. fst ` set row)"
  using keys_merge_from[of "[]" rows] by (simp add: merge_list_of_dicts_def)

lemma cell_zip_keys_within:
  assumes "zip_keys_within S sv"
  shows "cell sv ''zip_keys'' idx \<noteq> Inr x"
proof (cases "map_of sv ''zip_keys''")
  case None
  then show ?thesis by (simp add: cell_def)
next
  case (Some v)
  then have "(''zip_keys'', v) \<in> set sv" by (rule map_of_SomeD)
  with assms obtain gs' where "v = Groups gs'" unfolding zip_keys_within_def by blast
  with Some show ?thesis by (simp add: cell_def)
qed

lemma zip_rows_no_zip_keys:
  assumes "zip_keys_within S sv"
    and "zip_rows top_keys grp sv idxs d0 = Inr d"
    and "\<And>t rows row. (t, rows) \<in> set d0 \<Longrightarrow> row \<in> set rows \<Longrightarrow> ''zip_keys'' \<notin> fst ` set row"
    and "(t, rows) \<in> set d" "row \<in> set rows"
  shows "''zip_keys'' \<notin> fst ` set row"
  using assms(2,3)
proof (induction idxs arbitrary: d0)
  case Nil
  with assms(4,5) show ?case by simp
next
  case (Cons idx idxs)
  from Cons.prems(1) obtain t0 vs where
    vals: "collect (\<lambda>k. cell sv k idx) grp = Inr vs"
    and rest: "zip_rows top_keys grp sv idxs
                 (AList.update t0
                    ((case map_of d0 t0 of None \<Rightarrow> [] | Some rows \<Rightarrow> rows)
                     @ [foldl (\<lambda>d (k, v). AList.update k [v] d) [] (zip grp vs)]) d0) = Inr d"
    by (auto split: sum.splits)
  define new where "new = foldl (\<lambda>d (k, v). AList.update k [v] d) [] (zip grp vs)"
  define old where "old = (case map_of d0 t0 of None \<Rightarrow> [] | Some rows \<Rightarrow> rows)"
  from list_all2_left[OF collect_Inr_D[OF vals]]
  have all: "\<forall>k \<in> set grp. \<exists>x. cell sv k idx = Inr x" by blast
  with cell_zip_keys_within[OF assms(1)] have nz: "''zip_keys'' \<notin> set grp" by blast
  have "fst ` set new \<subseteq> fst ` set (zip grp vs)"
    unfolding new_def using keys_foldl_update[of "\<lambda>v. [v]" "[]" "zip grp vs"] by simp
  also have "\<dots> \<subseteq> set grp" by (auto dest: set_zip_leftD)
  finally have new: "''zip_keys'' \<notin> fst ` set new" using nz by blast
  have old: "''zip_keys'' \<notin> fst ` set r" if "r \<in> set old" for r
  proof (cases "map_of d0 t0")
    case None
    with that show ?thesis by (simp add: old_def)
  next
    case (Some rs)
    then have "(t0, rs) \<in> set d0" by (rule map_of_SomeD)
    moreover from that Some have "r \<in> set rs" by (simp add: old_def)
    ultimately show ?thesis by (rule Cons.prems(2))
  qed
  have step: "''zip_keys'' \<notin> fst ` set r"
    if m: "(t', rs) \<in> set (AList.update t0 (old @ [new]) d0)" and r: "r \<in> set rs" for t' rs r
  proof -
    from m set_update_subset[of t0 "old @ [new]" d0]
    have "(t', rs) = (t0, old @ [new]) \<or> (t', rs) \<in> set d0" by blast
    then show ?thesis
    proof
      assume "(t', rs) = (t0, old @ [new])"
      with r have "r \<in> set old \<or> r = new" by auto
      with old new show ?thesis by blast
    next
      assume "(t', rs) \<in> set d0"
      then show ?thesis using r by (rule Cons.prems(2))
    qed
  qed
  show ?case by (rule Cons.IH[OF rest[folded new_def old_def] step])
qed

lemma delete_keys_subset: "delete_keys ks sv = Inr sv' \<Longrightarrow> set sv' \<subseteq> set sv"
proof (induction ks arbitrary: sv)
  case Nil
  then show ?case by simp
next
  case (Cons k ks)
  then have "delete_keys ks (AList.delete k sv) = Inr sv'" by (simp split: if_splits)
  from Cons.IH[OF this] show ?case by (auto simp: AList.delete_eq)
qed

lemma dimension_zip_keys_within:
  assumes "zip_keys_within S sv" "map_of sv key = Some v"
  shows "\<forall>d \<in> set (dimension key v). zip_keys_within S d"
proof (cases "key = ''zip_keys''")
  case False
  then show ?thesis by (cases v) (auto simp: zip_keys_within_def)
next
  case True
  from assms(2) have "(key, v) \<in> set sv" by (rule map_of_SomeD)
  with assms(1) True obtain gs' where "v = Groups gs'" "set gs' \<subseteq> S"
    unfolding zip_keys_within_def by blast
  then show ?thesis by (auto simp: zip_keys_within_def)
qed

lemma break_up_loop_zip_keys:
  assumes "break_up_loop top_keys gs keys (acc, zcs, tlds, svc) = Inr (acc', zcs', tlds', svc')"
    and "zip_keys_within S svc"
    and "\<forall>D \<in> set zcs. \<forall>d \<in> set D. ''zip_keys'' \<notin> fst ` set d"
    and "\<forall>D \<in> set tlds. \<forall>d \<in> set D. zip_keys_within S d"
  shows "zip_keys_within S svc'
       \<and> (\<forall>D \<in> set zcs'. \<forall>d \<in> set D. ''zip_keys'' \<notin> fst ` set d)
       \<and> (\<forall>D \<in> set tlds'. \<forall>d \<in> set D. zip_keys_within S d)"
  using assms
proof (induction keys arbitrary: acc zcs tlds svc)
  case Nil
  then show ?case by simp
next
  case (Cons key keys)
  show ?case
  proof (cases "key \<in> set acc")
    case True
    with Cons.prems(1)
    have "break_up_loop top_keys gs keys (acc, zcs, tlds, svc) = Inr (acc', zcs', tlds', svc')"
      by simp
    from Cons.IH[OF this Cons.prems(2,3,4)] show ?thesis .
  next
    case False
    show ?thesis
    proof (cases "find (\<lambda>g. key \<in> set g) gs")
      case None
      with False Cons.prems(1) obtain v where v: "map_of svc key = Some v"
        and rest: "break_up_loop top_keys gs keys
                     (acc, zcs, tlds @ [dimension key v], AList.delete key svc)
                   = Inr (acc', zcs', tlds', svc')"
        by (auto split: option.splits)
      have 1: "zip_keys_within S (AList.delete key svc)"
        using Cons.prems(2) by (auto simp: zip_keys_within_def AList.delete_eq)
      have 2: "\<forall>D \<in> set (tlds @ [dimension key v]). \<forall>d \<in> set D. zip_keys_within S d"
        using Cons.prems(4) dimension_zip_keys_within[OF Cons.prems(2) v] by auto
      from Cons.IH[OF rest 1 Cons.prems(3) 2] show ?thesis .
    next
      case (Some grp)
      with False Cons.prems(1) obtain v tlcd sv1 where v: "map_of svc key = Some v"
        and rows: "zip_rows top_keys grp svc [0..<value_len v] [] = Inr tlcd"
        and del: "delete_keys grp svc = Inr sv1"
        and rest: "break_up_loop top_keys gs keys
                     (acc @ grp,
                      zcs @ [map (\<lambda>(_, variant_key_val).
                                    map (\<lambda>(k, xs). (k, Strs xs))
                                      (merge_list_of_dicts variant_key_val)) tlcd],
                      tlds, sv1)
                   = Inr (acc', zcs', tlds', svc')"
        by (auto split: option.splits sum.splits)
      have 1: "zip_keys_within S sv1"
        using Cons.prems(2) delete_keys_subset[OF del] by (auto simp: zip_keys_within_def)
      have nz: "''zip_keys'' \<notin> fst ` set row" if "(t, rs) \<in> set tlcd" "row \<in> set rs" for t rs row
        by (rule zip_rows_no_zip_keys[OF Cons.prems(2) rows _ that]) simp
      have new: "\<forall>d \<in> set (map (\<lambda>(_, variant_key_val).
                                    map (\<lambda>(k, xs). (k, Strs xs))
                                      (merge_list_of_dicts variant_key_val)) tlcd).
                   ''zip_keys'' \<notin> fst ` set d"
      proof
        fix d
        assume "d \<in> set (map (\<lambda>(_, variant_key_val).
                                    map (\<lambda>(k, xs). (k, Strs xs))
                                      (merge_list_of_dicts variant_key_val)) tlcd)"
        then obtain t rs where m: "(t, rs) \<in> set tlcd"
          and d: "d = map (\<lambda>(k, xs). (k, Strs xs)) (merge_list_of_dicts rs)" by auto
        have "fst ` set d = fst ` set (merge_list_of_dicts rs)"
          unfolding d by (force simp: image_iff)
        with keys_merge_list_of_dicts[of rs] nz[OF m]
        show "''zip_keys'' \<notin> fst ` set d" by blast
      qed
      have 2: "\<forall>D \<in> set (zcs @ [map (\<lambda>(_, variant_key_val).
                                    map (\<lambda>(k, xs). (k, Strs xs))
                                      (merge_list_of_dicts variant_key_val)) tlcd]).
                 \<forall>d \<in> set D. ''zip_keys'' \<notin> fst ` set d"
        using Cons.prems(3) new by auto
      from Cons.IH[OF rest 1 2 Cons.prems(4)] show ?thesis .
    qed
  qed
qed

lemma collect_collect_sort_keys:
  assumes "collect (collect (\<lambda>config. sort_config config g)) zcs = Inr zcs'"
    and "\<forall>D \<in> set zcs. \<forall>d \<in> set D. k \<notin> fst ` set d"
  shows "\<forall>D \<in> set zcs'. \<forall>d \<in> set D. k \<notin> fst ` set d"
proof (intro ballI)
  fix D' d' assume D': "D' \<in> set zcs'" and d': "d' \<in> set D'"
  from list_all2_right[OF collect_Inr_D[OF assms(1)] D'] obtain D where D: "D \<in> set zcs"
    and c: "collect (\<lambda>config. sort_config config g) D = Inr D'" by blast
  from list_all2_right[OF collect_Inr_D[OF c] d'] obtain d where d: "d \<in> set D"
    and s: "sort_config d g = Inr d'" by blast
  from sort_config_keys[OF s] have "fst ` set d' = fst ` set d" by (metis set_map)
  with assms(2) D d show "k \<notin> fst ` set d'" by auto
qed

lemma break_up_zip_keys_within:
  assumes "zip_keys_within S sv"
    and "break_up_top_level_values top_keys sv = Inr configs"
    and "c \<in> set configs"
  shows "zip_keys_within S c"
proof -
  from assms(2) obtain gs acc zcs tlds svc g' sv' zcs' where
    loop: "break_up_loop top_keys gs top_keys ([], [], [], sv) = Inr (acc, zcs, tlds, svc)"
    and bg: "sort_config svc g' = Inr sv'"
    and zs: "collect (collect (\<lambda>config. sort_config config g')) zcs = Inr zcs'"
    and configs: "configs = map (foldl dict_update [])
                     (product_lists (tlds @ zcs' @ (if sv' \<noteq> [] then [[sv']] else [])))"
    unfolding break_up_top_level_values_def Let_def
    by (auto split: sum.splits prod.splits)
  from break_up_loop_zip_keys[OF loop assms(1)]
  have 1: "zip_keys_within S svc"
    and 2: "\<forall>D \<in> set zcs. \<forall>d \<in> set D. ''zip_keys'' \<notin> fst ` set d"
    and 3: "\<forall>D \<in> set tlds. \<forall>d \<in> set D. zip_keys_within S d" by simp_all
  from sort_config_zip_keys[OF bg 1] have 4: "zip_keys_within S sv'" .
  from collect_collect_sort_keys[OF zs 2]
  have 5: "\<forall>D \<in> set zcs'. \<forall>d \<in> set D. zip_keys_within S d"
    by (force simp: zip_keys_within_def)
  define dims where "dims = tlds @ zcs' @ (if sv' \<noteq> [] then [[sv']] else [])"
  from 3 4 5 have all: "\<forall>D \<in> set dims. \<forall>d \<in> set D. zip_keys_within S d"
    by (auto simp: dims_def)
  from assms(3) configs obtain p where p: "p \<in> set (product_lists dims)"
    and c: "c = foldl dict_update [] p" by (auto simp: dims_def)
  from p have "list_all2 (\<lambda>x D. x \<in> set D) p dims" by (simp add: in_set_product_lists_length product_lists_set)
  from list_all2_left[OF this] all have "\<forall>d \<in> set p. zip_keys_within S d" by blast
  from zip_keys_within_merge[OF this] show ?thesis unfolding c .
qed

text \<open>
  After \<open>_trim_unused_zip_keys\<close>, whatever the top-level variable names: a Config that
  \<open>break_up_top_level_values\<close> emits for the trimmed mapping holds under \<open>zip_keys\<close>
  only groups that the trimming has kept, so none with fewer than 2 members.
\<close>

lemma trimmed_zip_keys_within:
  assumes "distinct (map fst d)" "trim_unused_zip_keys d = Inr d'"
  shows "zip_keys_within {g. 2 \<le> length g} d'"
proof -
  from assms(2) obtain groups where g: "trim_groups d = Inr groups"
    by (auto simp: trim_unused_zip_keys_def split: sum.splits)
  show ?thesis
  proof (cases "used_groups d groups = []")
    case False
    let ?v = "Groups (used_groups d groups)"
    from assms(2) g False have d': "d' = AList.update ''zip_keys'' ?v d"
      by (simp add: trim_unused_zip_keys_def)
    have dd: "distinct (map fst d')" unfolding d' using assms(1) by (rule distinct_update)
    have m: "map_of d' ''zip_keys'' = Some ?v" unfolding d' by (simp add: update_conv')
    have "v = ?v" if "(''zip_keys'', v) \<in> set d'" for v
      using that dd m by simp
    moreover have "set (used_groups d groups) \<subseteq> {g. 2 \<le> length g}"
      by (auto simp: used_groups_def)
    ultimately show ?thesis unfolding zip_keys_within_def by blast
  next
    case True
    have "''zip_keys'' \<notin> fst ` set d'"
    proof (cases "map_of d ''zip_keys''")
      case None
      with assms(2) g True have "d' = d" by (simp add: trim_unused_zip_keys_def)
      with None show ?thesis by (simp add: map_of_eq_None_iff)
    next
      case (Some z)
      with assms(2) g True have "d' = AList.delete ''zip_keys'' d"
        by (simp add: trim_unused_zip_keys_def)
      then show ?thesis by (auto simp: AList.delete_eq)
    qed
    then show ?thesis unfolding zip_keys_within_def by force
  qed
qed

lemma trimmed_groups_in_configs:
  assumes "distinct (map fst d)" "trim_unused_zip_keys d = Inr d'"
    and "break_up_top_level_values top_keys d' = Inr configs"
    and "c \<in> set configs" "map_of c ''zip_keys'' = Some v"
  shows "\<exists>gs. v = Groups gs \<and> (\<forall>g \<in> set gs. 2 \<le> length g)"
proof -
  from break_up_zip_keys_within[OF trimmed_zip_keys_within[OF assms(1,2)] assms(3,4)]
  have "zip_keys_within {g. 2 \<le> length g} c" .
  moreover from assms(5) have "(''zip_keys'', v) \<in> set c" by (rule map_of_SomeD)
  ultimately show ?thesis unfolding zip_keys_within_def by blast
qed

text \<open>
  The group \<open>[c_compiler, cxx_compiler]\<close> is left with one member that is a key of the
  mapping: the trimmed mapping has no \<open>zip_keys\<close>, and neither has the Config emitted
  for each compiler.
\<close>

lemma trimmed_groups_in_configs_example:
  "trim_unused_zip_keys
     [(''c_compiler'', Strs [''gcc'', ''clang'']),
      (''zip_keys'', Groups [[''c_compiler'', ''cxx_compiler'']])]
   = Inr [(''c_compiler'', Strs [''gcc'', ''clang''])]
   \<and> break_up_top_level_values [''c_compiler''] [(''c_compiler'', Strs [''gcc'', ''clang''])]
   = Inr [[(''c_compiler'', Strs [''gcc''])], [(''c_compiler'', Strs [''clang''])]]"
  by code_simp

end
